theory Spec2Isabelle
  imports Main
begin

section \<open>Data model of the buffered writer (worker/src/services/ClickhouseWriter/index.ts)\<close>

text \<open>
  The destinations are the members of the enum \<open>TableName\<close>, in the order in which
  the constructor and \<open>flushAll\<close> list them.
\<close>

datatype tableName =
    Traces
  | TracesNull
  | Scores
  | Observations
  | ObservationsBatchStaging
  | BlobStorageFileLog
  | DatasetRunItems
  | Events

text \<open>
  A property of a JavaScript object: the key is missing (\<open>"input" in record\<close> is
  false), it holds \<open>null\<close> or \<open>undefined\<close>, or it holds a value. Strings are lists of
  code units; \<open>length\<close> is JavaScript's \<open>.length\<close> and \<open>take n\<close> is
  \<open>.substring(0, n)\<close>.
\<close>

datatype 'a jsfield = Missing | Null | Val 'a

text \<open>
  An insert record. Only the properties that the writer reads are modelled; the other
  columns never influence the writer. The metadata object is kept as the list of its own
  entries, as \<open>Object.entries\<close> enumerates them: the keys are distinct and stand in the
  engine's property order. An own key \<open>__proto__\<close> is possible (\<open>JSON.parse\<close> creates
  one).
\<close>

record insertRecord =
  record_id :: string
  project_id :: string
  input :: "string jsfield"
  output' :: "string jsfield"
  metadata :: "(string \<times> string) list jsfield"

text \<open>
  Records are JavaScript objects: a queue item holds a reference to its record, and the
  writer assigns to the record's properties. The store maps references to the objects'
  current contents.
\<close>

type_synonym addr = nat

type_synonym store = "addr \<Rightarrow> insertRecord"

record queueItem =
  createdAt :: int
  attempts :: int
  data :: addr

text \<open>
  A thrown value (\<open>error: unknown\<close>): \<open>null\<close>, \<open>undefined\<close>, a value that is
  not an object (a string, a number, a boolean), or an object with its \<open>message\<close>
  property (\<open>None\<close> when the object has none).
\<close>

datatype thrown =
    JsNull
  | JsUndefined
  | JsPrimitive string
  | JsObject "string option"

text \<open>Calls of \<open>logger.warn\<close> and \<open>logger.error\<close>, in the order they are made.\<close>

datatype logEvent =
    WarnRetryable tableName nat
  | WarnStringLength tableName nat nat
  | WarnSingleRecord tableName
  | WarnSizeError tableName nat
  | ErrorNonRetryable
  | ErrorWriteRecord tableName thrown
  | ErrorFlush tableName thrown
  | ErrorDropped nat tableName

text \<open>
  The state that the writer reads and changes: its queues, the timer handle, the record
  objects, and what it sends to its collaborators: the batches passed to
  \<open>writeToClickhouse\<close> (with the contents the records had at the call), the rows
  that Prisma upserts have stored (table and record contents, in order), the counter
  \<open>langfuse.queue.clickhouse_writer.error\<close> and the log.
\<close>

record state =
  queue :: "tableName \<Rightarrow> queueItem list"
  intervalId :: "nat option"
  heap :: store
  writes :: "(tableName \<times> insertRecord list) list"
  upserted :: "(tableName \<times> insertRecord) list"
  errorCount :: nat
  logs :: "logEvent list"

text \<open>
  The configuration: the fields \<open>batchSize\<close> (a count) and \<open>maxAttempts\<close> of the writer, and
  \<open>env.LANGFUSE_INGESTION_CLICKHOUSE_MAX_ATTEMPTS\<close> as \<open>flush\<close> reads it for the
  attempt loop (the constructor copies the same variable into \<open>maxAttempts\<close>).
\<close>

record config =
  batchSize :: nat
  maxAttempts :: int
  envMaxAttempts :: int

text \<open>
  The Prisma client is outside the repository. Its \<open>upsert\<close> is a parameter: given how
  many batches have been written before, the table and the record's contents, it
  succeeds (\<open>None\<close>), and the row is then stored, or throws.
\<close>

type_synonym prisma = "nat \<Rightarrow> tableName \<Rightarrow> insertRecord \<Rightarrow> thrown option"

section \<open>Error predicates\<close>

text \<open>
  \<open>String.prototype.toLowerCase\<close> on the characters a \<open>string\<close> of this theory can
  hold (8-bit characters): the letters A to Z are mapped to a to z, every other character
  is kept. \<open>str_includes s p\<close> is \<open>s.includes(p)\<close>.
\<close>

definition lower_char :: "char \<Rightarrow> char" where
  "lower_char c =
     (case map_of (zip ''ABCDEFGHIJKLMNOPQRSTUVWXYZ'' ''abcdefghijklmnopqrstuvwxyz'') c of
        Some d \<Rightarrow> d
      | None \<Rightarrow> c)"

definition toLowerCase :: "string \<Rightarrow> string" where
  "toLowerCase s = map lower_char s"

fun str_includes :: "string \<Rightarrow> string \<Rightarrow> bool" where
  "str_includes [] p = (p = [])"
| "str_includes (c # cs) p = (take (length p) (c # cs) = p \<or> str_includes cs p)"

text \<open>\<open>(error as Error).message?.toLowerCase() || ""\<close>\<close>

definition errorMessage :: "string option \<Rightarrow> string" where
  "errorMessage m = (case m of None \<Rightarrow> [] | Some msg \<Rightarrow> toLowerCase msg)"

definition isRetryableError :: "thrown \<Rightarrow> bool" where
  "isRetryableError error =
     (case error of
        JsObject m \<Rightarrow> str_includes (errorMessage m) ''socket hang up''
      | _ \<Rightarrow> False)"

definition isSizeError :: "thrown \<Rightarrow> bool" where
  "isSizeError error =
     (case error of
        JsObject m \<Rightarrow>
          str_includes (errorMessage m) ''size of json object'' \<and>
          str_includes (errorMessage m) ''extremely large'' \<and>
          str_includes (errorMessage m) ''expected not greater than''
      | _ \<Rightarrow> False)"

definition isStringLengthError :: "thrown \<Rightarrow> bool" where
  "isStringLengthError error =
     (case error of
        JsObject m \<Rightarrow> str_includes (errorMessage m) ''invalid string length''
      | _ \<Rightarrow> False)"

section \<open>Truncation\<close>

definition maxFieldSize :: nat where
  "maxFieldSize = 1024 * 1024"

definition truncationMessage :: string where
  "truncationMessage = ''[TRUNCATED: Field exceeded size limit]''"

definition truncateField :: "string jsfield \<Rightarrow> string jsfield" where
  "truncateField v =
     (case v of
        Val s \<Rightarrow>
          if s = [] then Null
          else if length s > maxFieldSize then Val (take (500 * 1024) s @ truncationMessage)
          else Val s
      | _ \<Rightarrow> Null)"

text \<open>The guard \<open>record.input && record.input.length > maxFieldSize\<close>.\<close>

definition oversized :: "string jsfield \<Rightarrow> bool" where
  "oversized v = (case v of Val s \<Rightarrow> s \<noteq> [] \<and> length s > maxFieldSize | _ \<Rightarrow> False)"

text \<open>\<open>truncateField(value) || ""\<close>\<close>

definition orEmpty :: "string jsfield \<Rightarrow> string" where
  "orEmpty v = (case v of Val s \<Rightarrow> s | _ \<Rightarrow> [])"

definition truncateEntry :: "string \<times> string \<Rightarrow> string \<times> string" where
  "truncateEntry kv =
     (case kv of (key, v) \<Rightarrow>
        if v \<noteq> [] \<and> length v > maxFieldSize then (key, orEmpty (truncateField (Val v)))
        else (key, v))"

text \<open>
  \<open>truncatedMetadata[key] = v\<close> on the object that started as \<open>{}\<close>, for a string
  \<open>v\<close>. The key \<open>__proto__\<close> reaches the setter inherited from \<open>Object.prototype\<close>,
  which ignores a value that is not an object, so nothing is stored. Any other key is
  overwritten when the object has it and added otherwise. The loop below adds the keys
  in the order in which \<open>Object.entries\<close> lists them, and the new object lists them in
  that order too, so an added key stands last.
\<close>

definition objectSet ::
  "(string \<times> string) list \<Rightarrow> string \<Rightarrow> string \<Rightarrow> (string \<times> string) list" where
  "objectSet obj key v =
     (if key = ''__proto__'' then obj
      else if key \<in> fst ` set obj
        then map (\<lambda>kw. if fst kw = key then (key, v) else kw) obj
      else obj @ [(key, v)])"

text \<open>The loop over \<open>Object.entries(metadata)\<close> that fills \<open>truncatedMetadata\<close>.\<close>

definition rebuildMetadata :: "(string \<times> string) list \<Rightarrow> (string \<times> string) list" where
  "rebuildMetadata md =
     foldl (\<lambda>obj kv. objectSet obj (fst (truncateEntry kv)) (snd (truncateEntry kv))) [] md"

text \<open>
  \<open>truncateOversizedRecord\<close> assigns to the properties of the record it is given and
  returns that same reference.
\<close>

definition truncateOversizedRecord :: "tableName \<Rightarrow> addr \<Rightarrow> store \<Rightarrow> addr \<times> store" where
  "truncateOversizedRecord tableName r h =
     (let h1 = (if input (h r) \<noteq> Missing \<and> oversized (input (h r))
                then h(r := (h r)\<lparr>input := truncateField (input (h r))\<rparr>) else h);
          h2 = (if output' (h1 r) \<noteq> Missing \<and> oversized (output' (h1 r))
                then h1(r := (h1 r)\<lparr>output' := truncateField (output' (h1 r))\<rparr>) else h1);
          h3 = (case metadata (h2 r) of
                  Val md \<Rightarrow> h2(r := (h2 r)\<lparr>metadata := Val (rebuildMetadata md)\<rparr>)
                | _ \<Rightarrow> h2)
      in (r, h3))"

text \<open>
  The size-error branch maps \<open>truncateOversizedRecord\<close> over \<open>recordsToWrite\<close>, one
  record after the other.
\<close>

fun truncateAll :: "tableName \<Rightarrow> addr list \<Rightarrow> store \<Rightarrow> addr list \<times> store" where
  "truncateAll tableName [] h = ([], h)"
| "truncateAll tableName (r # rs) h =
     (case truncateOversizedRecord tableName r h of
        (r', h1) \<Rightarrow> (case truncateAll tableName rs h1 of (rs', h2) \<Rightarrow> (r' # rs', h2)))"

section \<open>Writing a batch\<close>

text \<open>
  \<open>writeRecordToPostgres\<close>: an upsert for traces, observations and scores, nothing for
  the other tables. The last argument and the second result are the rows stored so far:
  an upsert that does not throw stores the record under its table.
\<close>

fun writeRecordToPostgres ::
  "prisma \<Rightarrow> nat \<Rightarrow> tableName \<Rightarrow> insertRecord \<Rightarrow> (tableName \<times> insertRecord) list \<Rightarrow>
   thrown option \<times> (tableName \<times> insertRecord) list" where
  "writeRecordToPostgres P n Traces r db =
     (case P n Traces r of Some err \<Rightarrow> (Some err, db) | None \<Rightarrow> (None, db @ [(Traces, r)]))"
| "writeRecordToPostgres P n Observations r db =
     (case P n Observations r of
        Some err \<Rightarrow> (Some err, db)
      | None \<Rightarrow> (None, db @ [(Observations, r)]))"
| "writeRecordToPostgres P n Scores r db =
     (case P n Scores r of Some err \<Rightarrow> (Some err, db) | None \<Rightarrow> (None, db @ [(Scores, r)]))"
| "writeRecordToPostgres P n TracesNull r db = (None, db)"
| "writeRecordToPostgres P n ObservationsBatchStaging r db = (None, db)"
| "writeRecordToPostgres P n BlobStorageFileLog r db = (None, db)"
| "writeRecordToPostgres P n DatasetRunItems r db = (None, db)"
| "writeRecordToPostgres P n Events r db = (None, db)"

text \<open>The loop of \<open>writeToClickhouse\<close>: the first record that fails ends it.\<close>

fun writeLoop ::
  "prisma \<Rightarrow> nat \<Rightarrow> tableName \<Rightarrow> insertRecord list \<Rightarrow> (tableName \<times> insertRecord) list \<Rightarrow>
   thrown option \<times> (tableName \<times> insertRecord) list" where
  "writeLoop P n t [] db = (None, db)"
| "writeLoop P n t (r # rs) db =
     (case writeRecordToPostgres P n t r db of
        (Some err, db1) \<Rightarrow> (Some err, db1)
      | (None, db1) \<Rightarrow> writeLoop P n t rs db1)"

text \<open>
  What the loop throws, if anything. The rows stored before have no part in it (lemma
  \<open>writeLoop_fst\<close>).
\<close>

definition writeRecords :: "prisma \<Rightarrow> nat \<Rightarrow> tableName \<Rightarrow> insertRecord list \<Rightarrow> thrown option" where
  "writeRecords P n t rs = fst (writeLoop P n t rs [])"

definition addLog :: "logEvent \<Rightarrow> state \<Rightarrow> state" where
  "addLog ev s = s\<lparr>logs := logs s @ [ev]\<rparr>"

definition writeToClickhouse ::
  "prisma \<Rightarrow> tableName \<Rightarrow> addr list \<Rightarrow> state \<Rightarrow> thrown option \<times> state" where
  "writeToClickhouse P t records s =
     (let vals = map (heap s) records;
          s1 = s\<lparr>writes := writes s @ [(t, vals)]\<rparr>
      in case writeLoop P (length (writes s)) t vals (upserted s) of
           (Some err, db) \<Rightarrow> (Some err, addLog (ErrorWriteRecord t err) (s1\<lparr>upserted := db\<rparr>))
         | (None, db) \<Rightarrow> (None, s1\<lparr>upserted := db\<rparr>))"

section \<open>The flush cycle\<close>

text \<open>The local variables of one call of \<open>flush\<close>, and the state around it.\<close>

record cycle =
  queueItems :: "queueItem list"
  recordsToWrite :: "addr list"
  hasBeenTruncated :: bool
  world :: state

definition handleStringLengthError ::
  "tableName \<Rightarrow> queueItem list \<Rightarrow> state \<Rightarrow> (queueItem list \<times> queueItem list) \<times> state" where
  "handleStringLengthError tableName items s =
     (case items of
        [item] \<Rightarrow>
          (case truncateOversizedRecord tableName (data item) (heap s) of
             (truncatedRecord, h) \<Rightarrow>
               (([item\<lparr>data := truncatedRecord\<rparr>], []),
                addLog (WarnSingleRecord tableName) (s\<lparr>heap := h\<rparr>)))
      | _ \<Rightarrow>
          (let splitPoint = length items div 2
           in ((take splitPoint items, drop splitPoint items), s)))"

text \<open>
  Reading \<open>error.message\<close> of \<open>null\<close> or \<open>undefined\<close> throws a TypeError; no code
  path inspects its message.
\<close>

definition typeError :: thrown where
  "typeError = JsObject (Some ''Cannot read properties of null'')"

text \<open>
  The \<open>retry\<close> callback that \<open>flush\<close> passes to \<open>backOff\<close>. It returns whether to
  retry (\<open>Inr\<close>) or throws (\<open>Inl\<close>).
\<close>

definition retry :: "tableName \<Rightarrow> thrown \<Rightarrow> nat \<Rightarrow> cycle \<Rightarrow> (thrown + bool) \<times> cycle" where
  "retry tableName error attemptNumber c =
     (if isRetryableError error then
        (Inr True, c\<lparr>world := addLog (WarnRetryable tableName attemptNumber) (world c)\<rparr>)
      else if isStringLengthError error then
        (let w1 = addLog (WarnStringLength tableName attemptNumber (length (queueItems c))) (world c)
         in case handleStringLengthError tableName (queueItems c) w1 of
              ((retryItems, requeueItems), w2) \<Rightarrow>
                (Inr True,
                 c\<lparr>recordsToWrite := map data retryItems,
                   queueItems := retryItems,
                   world := (if requeueItems \<noteq> []
                             then w2\<lparr>queue := (queue w2)(tableName := requeueItems @ queue w2 tableName)\<rparr>
                             else w2)\<rparr>))
      else if isSizeError error \<and> \<not> hasBeenTruncated c then
        (let w1 = addLog (WarnSizeError tableName attemptNumber) (world c)
         in case truncateAll tableName (recordsToWrite c) (heap w1) of
              (records, h) \<Rightarrow>
                (Inr True,
                 c\<lparr>recordsToWrite := records, hasBeenTruncated := True, world := w1\<lparr>heap := h\<rparr>\<rparr>))
      else
        (case error of
           JsNull \<Rightarrow> (Inl typeError, c)
         | JsUndefined \<Rightarrow> (Inl typeError, c)
         | _ \<Rightarrow> (Inr False, c\<lparr>world := addLog ErrorNonRetryable (world c)\<rparr>)))"

text \<open>The request that \<open>flush\<close> passes to \<open>backOff\<close>.\<close>

definition request :: "prisma \<Rightarrow> tableName \<Rightarrow> cycle \<Rightarrow> thrown option \<times> cycle" where
  "request P tableName c =
     (case writeToClickhouse P tableName (recordsToWrite c) (world c) of
        (res, w) \<Rightarrow> (res, c\<lparr>world := w\<rparr>))"

text \<open>
  Modelled from the spec: the attempt loop of the package \<open>exponential-backoff\<close>, an
  npm dependency whose source is not under src/. The spec calls it an attempt loop of up
  to \<open>maxDeliveryAttempts\<close> attempts, in which a failure is classified and the loop
  either retries or stops. The package's \<open>execute\<close> is
  \<^verbatim>\<open>while (!attemptLimitReached) { try { return await request() } catch (e) {
    attemptNumber++; shouldRetry = await retry(e, attemptNumber);
    if (!shouldRetry || attemptLimitReached) throw e } }
  throw new Error("Something went wrong.")\<close>
  with \<open>attemptLimitReached = attemptNumber >= numOfAttempts\<close>, and \<open>numOfAttempts\<close>
  below 1 is read as 1. The delays between attempts are not modelled. The result is
  \<open>None\<close> when a request succeeded and the thrown value otherwise.
\<close>

function backOff_execute ::
  "('s \<Rightarrow> thrown option \<times> 's) \<Rightarrow> (thrown \<Rightarrow> nat \<Rightarrow> 's \<Rightarrow> (thrown + bool) \<times> 's) \<Rightarrow>
   int \<Rightarrow> nat \<Rightarrow> 's \<Rightarrow> thrown option \<times> 's" where
  "backOff_execute req rty numOfAttempts attemptNumber s =
     (if int attemptNumber \<ge> numOfAttempts then (Some (JsObject (Some ''Something went wrong.'')), s)
      else
        (case req s of
           (None, s1) \<Rightarrow> (None, s1)
         | (Some e, s1) \<Rightarrow>
             (case rty e (attemptNumber + 1) s1 of
                (Inl t, s2) \<Rightarrow> (Some t, s2)
              | (Inr shouldRetry, s2) \<Rightarrow>
                  if \<not> shouldRetry \<or> int (attemptNumber + 1) \<ge> numOfAttempts then (Some e, s2)
                  else backOff_execute req rty numOfAttempts (attemptNumber + 1) s2)))"
  by pat_completeness auto
termination
  by (relation "measure (\<lambda>(req, rty, numOfAttempts, attemptNumber, s). nat (numOfAttempts - int attemptNumber))")
     auto

definition backOff ::
  "('s \<Rightarrow> thrown option \<times> 's) \<Rightarrow> (thrown \<Rightarrow> nat \<Rightarrow> 's \<Rightarrow> (thrown + bool) \<times> 's) \<Rightarrow>
   int \<Rightarrow> 's \<Rightarrow> thrown option \<times> 's" where
  "backOff req rty numOfAttempts s =
     backOff_execute req rty (if numOfAttempts < 1 then 1 else numOfAttempts) 0 s"

text \<open>The body of \<open>forEach\<close> in the catch block of \<open>flush\<close>.\<close>

definition requeueOrDrop :: "config \<Rightarrow> tableName \<Rightarrow> state \<times> nat \<Rightarrow> queueItem \<Rightarrow> state \<times> nat" where
  "requeueOrDrop cfg tableName acc item =
     (case acc of (s, droppedCount) \<Rightarrow>
        if attempts item < maxAttempts cfg then
          (s\<lparr>queue := (queue s)(tableName := queue s tableName @ [item\<lparr>attempts := attempts item + 1\<rparr>])\<rparr>,
           droppedCount)
        else (s\<lparr>errorCount := errorCount s + 1\<rparr>, droppedCount + 1))"

definition flushCatch :: "config \<Rightarrow> tableName \<Rightarrow> thrown \<Rightarrow> queueItem list \<Rightarrow> state \<Rightarrow> state" where
  "flushCatch cfg tableName err items s =
     (case foldl (requeueOrDrop cfg tableName) (addLog (ErrorFlush tableName err) s, 0) items of
        (s1, droppedCount) \<Rightarrow>
          if droppedCount > 0 then addLog (ErrorDropped droppedCount tableName) s1 else s1)"

text \<open>
  One call of \<open>flush\<close>, run to completion without another task touching the state in
  between.
\<close>

definition flush :: "config \<Rightarrow> prisma \<Rightarrow> tableName \<Rightarrow> bool \<Rightarrow> state \<Rightarrow> state" where
  "flush cfg P tableName fullQueue s =
     (let entityQueue = queue s tableName in
      if entityQueue = [] then s
      else
        (let n = (if fullQueue then length entityQueue else batchSize cfg);
             items = take n entityQueue;
             c0 = \<lparr>queueItems = items,
                   recordsToWrite = map data items,
                   hasBeenTruncated = False,
                   world = s\<lparr>queue := (queue s)(tableName := drop n entityQueue)\<rparr>\<rparr>
         in case backOff (request P tableName) (retry tableName) (envMaxAttempts cfg) c0 of
              (None, c1) \<Rightarrow> world c1
            | (Some err, c1) \<Rightarrow> flushCatch cfg tableName err (queueItems c1) (world c1)))"

section \<open>Producers, the sweep over all tables, shutdown\<close>

definition addToQueue :: "config \<Rightarrow> prisma \<Rightarrow> tableName \<Rightarrow> addr \<Rightarrow> int \<Rightarrow> state \<Rightarrow> state" where
  "addToQueue cfg P tableName d now s =
     (let s1 = s\<lparr>queue := (queue s)(tableName :=
                 queue s tableName @ [\<lparr>createdAt = now, attempts = 1, data = d\<rparr>])\<rparr>
      in if length (queue s1 tableName) \<ge> batchSize cfg then flush cfg P tableName False s1 else s1)"

text \<open>
  \<open>flushAll\<close> starts one \<open>flush\<close> per table, in this order, and waits for all of them.
  Here each of them runs to completion before the next one starts.
\<close>

definition allTables :: "tableName list" where
  "allTables =
     [Traces, TracesNull, Scores, Observations, ObservationsBatchStaging, BlobStorageFileLog,
      DatasetRunItems, Events]"

definition flushAll :: "config \<Rightarrow> prisma \<Rightarrow> bool \<Rightarrow> state \<Rightarrow> state" where
  "flushAll cfg P fullQueue s = foldl (\<lambda>s' t. flush cfg P t fullQueue s') s allTables"

definition shutdown :: "config \<Rightarrow> prisma \<Rightarrow> state \<Rightarrow> state" where
  "shutdown cfg P s = flushAll cfg P True (s\<lparr>intervalId := None\<rparr>)"

text \<open>The constructor: empty queues, and \<open>start\<close> has set the timer.\<close>

definition newWriter :: "store \<Rightarrow> state" where
  "newWriter h =
     \<lparr>queue = (\<lambda>t. []), intervalId = Some 0, heap = h, writes = [], upserted = [],
      errorCount = 0, logs = []\<rparr>"

section \<open>Derived notions used in the statements\<close>

text \<open>
  The contents of a record after the assignments of \<open>truncateOversizedRecord\<close>
  (lemma \<open>truncateOversizedRecord_eq\<close> relates the two).
\<close>

definition truncated :: "insertRecord \<Rightarrow> insertRecord" where
  "truncated x =
     x\<lparr>input := (if oversized (input x) then truncateField (input x) else input x),
       output' := (if oversized (output' x) then truncateField (output' x) else output' x),
       metadata := (case metadata x of Val md \<Rightarrow> Val (rebuildMetadata md) | other \<Rightarrow> other)\<rparr>"

text \<open>
  What every object that \<open>rebuildMetadata\<close> returns satisfies: distinct keys, none of
  them \<open>__proto__\<close>, every value within the size limit.
\<close>

definition rebuilt :: "(string \<times> string) list \<Rightarrow> bool" where
  "rebuilt obj =
     (distinct (map fst obj) \<and> ''__proto__'' \<notin> fst ` set obj \<and>
      list_all (\<lambda>kv. length (snd kv) \<le> maxFieldSize) obj)"

text \<open>The local variables of \<open>flush\<close> when the attempt loop starts.\<close>

definition cycleStart :: "config \<Rightarrow> tableName \<Rightarrow> bool \<Rightarrow> state \<Rightarrow> cycle" where
  "cycleStart cfg t full s =
     (let n = (if full then length (queue s t) else batchSize cfg)
      in \<lparr>queueItems = take n (queue s t),
          recordsToWrite = map data (take n (queue s t)),
          hasBeenTruncated = False,
          world = s\<lparr>queue := (queue s)(t := drop n (queue s t))\<rparr>\<rparr>)"


text \<open>What one flush cycle keeps fixed, whatever the backing store answers.\<close>

definition cycle_inv ::
  "tableName \<Rightarrow> queueItem list \<Rightarrow> state \<Rightarrow> cycle \<Rightarrow> bool" where
  "cycle_inv t batch s0 c =
     ((\<exists>front. queueItems c @ front = batch \<and> queue (world c) t = front @ queue s0 t) \<and>
      (\<forall>t'. t' \<noteq> t \<longrightarrow> queue (world c) t' = queue s0 t') \<and>
      errorCount (world c) = errorCount s0 \<and>
      intervalId (world c) = intervalId s0 \<and>
      recordsToWrite c = map data (queueItems c))"


text \<open>
  What one flush cycle does to the records and what it submits: a record is as it was
  when the cycle started or is the truncated form of that, and only records that items
  of the batch refer to are truncated; every batch written since goes to the table of
  the cycle and consists of such records of the batch.
\<close>

definition payload_inv ::
  "tableName \<Rightarrow> queueItem list \<Rightarrow> state \<Rightarrow> cycle \<Rightarrow> bool" where
  "payload_inv t batch s0 c =
     (cycle_inv t batch s0 c \<and>
      (\<forall>a. heap (world c) a = heap s0 a \<or>
           (a \<in> data ` set batch \<and> heap (world c) a = truncated (heap s0 a))) \<and>
      (\<exists>ws. writes (world c) = writes s0 @ ws \<and>
            (\<forall>w \<in> set ws. fst w = t \<and>
               (\<forall>x \<in> set (snd w). \<exists>a \<in> data ` set batch.
                  x = heap s0 a \<or> x = truncated (heap s0 a)))))"

text \<open>
  How an operation of the writer may change the items of one queue and the records:
  every item afterwards is an item from before, or one from before with its attempts
  incremented; every record afterwards is as before or the truncated form of that.
\<close>

definition sameOrRetried :: "queueItem list \<Rightarrow> queueItem list \<Rightarrow> bool" where
  "sameOrRetried before after =
     (\<forall>i \<in> set after.
        i \<in> set before \<or> (\<exists>j \<in> set before. i = j\<lparr>attempts := attempts j + 1\<rparr>))"

definition sameOrTruncated :: "store \<Rightarrow> store \<Rightarrow> bool" where
  "sameOrTruncated before after = (\<forall>a. after a = before a \<or> after a = truncated (before a))"

text \<open>How many times the size-error branch of \<open>retry\<close> has logged its warning.\<close>

definition sizeTruncations :: "logEvent list \<Rightarrow> nat" where
  "sizeTruncations l =
     length (filter (\<lambda>ev. case ev of WarnSizeError t k \<Rightarrow> True | _ \<Rightarrow> False) l)"

section \<open>Example inputs\<close>

definition bigRecord :: insertRecord where
  "bigRecord =
     \<lparr>record_id = ''obs-1'', project_id = ''proj'',
      input = Val (replicate 1048577 CHR ''x''),
      output' = Val ''ok'',
      metadata = Val [(''big'', replicate 2000000 CHR ''y''), (''small'', ''v'')]\<rparr>"

definition smallRecord :: insertRecord where
  "smallRecord =
     \<lparr>record_id = ''trace-1'', project_id = ''proj'', input = Val ''in'', output' = Null,
      metadata = Missing\<rparr>"

text \<open>A record as \<open>JSON.parse\<close> returns it for a metadata object with the key \<open>__proto__\<close>.\<close>

definition protoRecord :: insertRecord where
  "protoRecord =
     \<lparr>record_id = ''obs-2'', project_id = ''proj'', input = Val ''in'', output' = Val ''out'',
      metadata = Val [(''__proto__'', ''x''), (''env'', ''prod'')]\<rparr>"

definition exampleStore :: store where
  "exampleStore = (\<lambda>a. if a = 7 then bigRecord else smallRecord)"

definition mkItem :: "int \<Rightarrow> addr \<Rightarrow> queueItem" where
  "mkItem n a = \<lparr>createdAt = 0, attempts = n, data = a\<rparr>"

definition stateWith :: "queueItem list \<Rightarrow> state" where
  "stateWith items = (newWriter exampleStore)\<lparr>queue := (\<lambda>t. [])(Traces := items)\<rparr>"

text \<open>A writer with three items queued for the events table.\<close>

definition eventsState :: state where
  "eventsState =
     (newWriter exampleStore)\<lparr>queue := (\<lambda>t. [])(Events := [mkItem 1 1, mkItem 1 2, mkItem 1 3])\<rparr>"

definition exampleConfig :: "nat \<Rightarrow> int \<Rightarrow> config" where
  "exampleConfig b m = \<lparr>batchSize = b, maxAttempts = m, envMaxAttempts = m\<rparr>"

definition healthy :: prisma where
  "healthy = (\<lambda>n t r. None)"

definition always :: "thrown \<Rightarrow> prisma" where
  "always e = (\<lambda>n t r. Some e)"

definition failFirst :: "nat \<Rightarrow> thrown \<Rightarrow> prisma" where
  "failFirst k e = (\<lambda>n t r. if n < k then Some e else None)"


definition socketHangUp :: thrown where
  "socketHangUp = JsObject (Some ''request failed: socket hang up'')"

definition invalidStringLength :: thrown where
  "invalidStringLength = JsObject (Some ''RangeError: Invalid string length'')"

definition tooLarge :: thrown where
  "tooLarge = JsObject (Some ''Size of JSON object is extremely large. Expected not greater than 1048576 bytes'')"

definition uniqueViolation :: thrown where
  "uniqueViolation = JsObject (Some ''Unique constraint failed on the fields: (id)'')"


definition fourItems :: "queueItem list" where
  "fourItems = [mkItem 1 1, mkItem 1 2, mkItem 1 3, mkItem 1 4]"

text \<open>The cycle of \<open>flush\<close> that has taken four items, and one that has taken one.\<close>

definition cycle4 :: cycle where
  "cycle4 = cycleStart (exampleConfig 4 2) Traces False (stateWith fourItems)"

definition cycle1 :: cycle where
  "cycle1 = cycleStart (exampleConfig 4 2) Traces False (stateWith [mkItem 1 7])"

text \<open>
  The single-item cycle after a first write that failed with the size error, after the
  \<open>retry\<close> callback that followed, and after a second failed write.
\<close>

definition cycle1a :: cycle where
  "cycle1a = snd (request (always tooLarge) Traces cycle1)"

definition cycle1b :: cycle where
  "cycle1b = snd (retry Traces tooLarge 1 cycle1a)"

definition cycle1c :: cycle where
  "cycle1c = snd (request (always tooLarge) Traces cycle1b)"

text \<open>
  Three records enqueued one after the other into a new writer with \<open>batchSize = 2\<close>,
  while the first write to the backing store fails and the later ones succeed.
\<close>

definition run1 :: state where
  "run1 = addToQueue (exampleConfig 2 3) (failFirst 1 uniqueViolation) Traces 1 10
            (newWriter exampleStore)"

definition run2 :: state where
  "run2 = addToQueue (exampleConfig 2 3) (failFirst 1 uniqueViolation) Traces 2 20 run1"

definition run3 :: state where
  "run3 = addToQueue (exampleConfig 2 3) (failFirst 1 uniqueViolation) Traces 3 30 run2"

section \<open>Helper facts about truncation\<close>

lemma length_truncationMessage: "length truncationMessage = 38"
  by (simp add: truncationMessage_def)

lemma oversized_truncateField:
  "oversized v \<Longrightarrow> \<exists>s. v = Val s \<and> truncateField v = Val (take 512000 s @ truncationMessage)"
  by (cases v) (auto simp: oversized_def truncateField_def)

lemma truncateField_not_oversized: "\<not> oversized (truncateField v)"
  by (cases v)
     (auto simp: oversized_def truncateField_def maxFieldSize_def length_truncationMessage)

lemma truncateEntry_idem: "truncateEntry (truncateEntry kv) = truncateEntry kv"
  by (cases kv)
     (auto simp: truncateEntry_def truncateField_def orEmpty_def maxFieldSize_def
                 length_truncationMessage)

lemma truncateEntry_eq:
  "truncateEntry (k, v) =
     (k, if length v \<le> maxFieldSize then v else take (500 * 1024) v @ truncationMessage)"
  by (auto simp: truncateEntry_def truncateField_def orEmpty_def maxFieldSize_def)

lemma truncateEntry_fst: "fst (truncateEntry kv) = fst kv"
  by (cases kv) (simp add: truncateEntry_eq)

lemma truncateEntry_fixed: "length (snd kv) \<le> maxFieldSize \<Longrightarrow> truncateEntry kv = kv"
  by (cases kv) (simp add: truncateEntry_eq)

lemma truncateEntry_small: "length (snd (truncateEntry kv)) \<le> maxFieldSize"
  by (cases kv)
     (auto simp: truncateEntry_def truncateField_def orEmpty_def maxFieldSize_def
                 length_truncationMessage)

lemma objectSet_rebuilt:
  assumes "rebuilt obj" "length v \<le> maxFieldSize"
  shows "rebuilt (objectSet obj key v)"
proof -
  have m: "map fst (map (\<lambda>kw. if fst kw = key then (key, v) else kw) obj) = map fst obj"
    by (induction obj) auto
  have s: "fst ` set (map (\<lambda>kw. if fst kw = key then (key, v) else kw) obj) = fst ` set obj"
    using m by (metis list.set_map)
  show ?thesis
    using assms m s
    by (auto simp: rebuilt_def objectSet_def list_all_iff simp del: map_map)
qed

lemma foldl_rebuilt:
  "rebuilt acc \<Longrightarrow>
   rebuilt (foldl (\<lambda>obj kv. objectSet obj (fst (truncateEntry kv)) (snd (truncateEntry kv))) acc md)"
  by (induction md arbitrary: acc) (simp_all add: objectSet_rebuilt truncateEntry_small)

lemma rebuildMetadata_rebuilt: "rebuilt (rebuildMetadata md)"
  unfolding rebuildMetadata_def by (rule foldl_rebuilt) (simp add: rebuilt_def)

lemma foldl_distinct:
  "distinct (map fst md) \<Longrightarrow> fst ` set md \<inter> fst ` set acc = {} \<Longrightarrow>
   foldl (\<lambda>obj kv. objectSet obj (fst (truncateEntry kv)) (snd (truncateEntry kv))) acc md =
     acc @ map truncateEntry (filter (\<lambda>kv. fst kv \<noteq> ''__proto__'') md)"
proof (induction md arbitrary: acc)
  case Nil
  show ?case by simp
next
  case (Cons kv md)
  let ?acc = "objectSet acc (fst (truncateEntry kv)) (snd (truncateEntry kv))"
  have new: "fst kv \<notin> fst ` set acc" using Cons.prems(2) by auto
  have acc: "?acc = acc @ (if fst kv = ''__proto__'' then [] else [truncateEntry kv])"
    using new by (simp add: objectSet_def truncateEntry_fst) (metis truncateEntry_fst prod.collapse)
  have d: "distinct (map fst md)" using Cons.prems(1) by simp
  have disj: "fst ` set md \<inter> fst ` set ?acc = {}"
    unfolding acc using Cons.prems by (auto simp: truncateEntry_fst)
  show ?case
    using Cons.IH [OF d disj] unfolding acc by (simp add: acc)
qed

lemma rebuildMetadata_distinct:
  "distinct (map fst md) \<Longrightarrow>
   rebuildMetadata md = map truncateEntry (filter (\<lambda>kv. fst kv \<noteq> ''__proto__'') md)"
  unfolding rebuildMetadata_def using foldl_distinct [of md "[]"] by simp

lemma rebuildMetadata_fixed: "rebuilt md \<Longrightarrow> rebuildMetadata md = md"
proof -
  assume w: "rebuilt md"
  then have d: "distinct (map fst md)" by (simp add: rebuilt_def)
  have f: "filter (\<lambda>kv. fst kv \<noteq> ''__proto__'') md = md"
    using w by (intro filter_True) (force simp: rebuilt_def image_iff)
  have m: "map truncateEntry md = md"
    using w by (auto simp: rebuilt_def list_all_iff truncateEntry_fixed intro!: map_idI)
  show ?thesis by (simp add: rebuildMetadata_distinct [OF d] f m)
qed

lemma rebuildMetadata_idem: "rebuildMetadata (rebuildMetadata md) = rebuildMetadata md"
  by (rule rebuildMetadata_fixed [OF rebuildMetadata_rebuilt])

lemma oversized_not_Missing: "oversized v \<Longrightarrow> v \<noteq> Missing"
  by (auto simp: oversized_def)

lemma truncateOversizedRecord_eq:
  "truncateOversizedRecord t r h = (r, h(r := truncated (h r)))"
  by (auto simp: truncateOversizedRecord_def truncated_def Let_def fun_eq_iff oversized_not_Missing
           split: jsfield.splits)

lemma truncated_idem: "truncated (truncated x) = truncated x"
  by (cases "metadata x")
     (auto simp: truncated_def truncateField_not_oversized rebuildMetadata_idem)

lemma truncateAll_eq:
  "truncateAll t rs h = (rs, (\<lambda>a. if a \<in> set rs then truncated (h a) else h a))"
proof (induction rs arbitrary: h)
  case Nil
  show ?case by simp
next
  case (Cons r rs)
  show ?case
    by (auto simp: Cons.IH truncateOversizedRecord_eq fun_eq_iff truncated_idem)
qed

lemma str_includes_append: "str_includes (xs @ p) p"
proof (induction xs)
  case Nil
  show ?case by (cases p) simp_all
next
  case (Cons x xs)
  then show ?case by simp
qed

lemma truncateField_cases:
  "truncateField (Val s) = Val s' \<Longrightarrow> length s' \<le> maxFieldSize"
  by (auto simp: truncateField_def maxFieldSize_def length_truncationMessage split: if_splits)

lemma field_after:
  "(if oversized v then truncateField v else v) =
     (case v of Val s \<Rightarrow> Val (if length s \<le> maxFieldSize then s else take (500 * 1024) s @ truncationMessage)
      | other \<Rightarrow> other)"
  by (cases v) (auto simp: oversized_def truncateField_def maxFieldSize_def)

section \<open>Helper facts about the attempt loop and the flush cycle\<close>

declare backOff_execute.simps [simp del]

lemma addLog_simps [simp]:
  "queue (addLog ev s) = queue s"
  "heap (addLog ev s) = heap s"
  "writes (addLog ev s) = writes s"
  "errorCount (addLog ev s) = errorCount s"
  "intervalId (addLog ev s) = intervalId s"
  "logs (addLog ev s) = logs s @ [ev]"
  "upserted (addLog ev s) = upserted s"
  by (simp_all add: addLog_def)

lemma writeRecordToPostgres_fst:
  "fst (writeRecordToPostgres P n t r db) = fst (writeRecordToPostgres P n t r [])"
  by (cases t) (simp_all split: option.splits)

lemma writeLoop_fst: "fst (writeLoop P n t rs db) = writeRecords P n t rs"
  unfolding writeRecords_def
proof (induction rs arbitrary: db)
  case Nil
  show ?case by simp
next
  case (Cons r rs)
  obtain x db1 where a: "writeRecordToPostgres P n t r db = (x, db1)"
    by (cases "writeRecordToPostgres P n t r db")
  obtain y db2 where b: "writeRecordToPostgres P n t r [] = (y, db2)"
    by (cases "writeRecordToPostgres P n t r []")
  have xy: "x = y" using writeRecordToPostgres_fst [of P n t r db] a b by simp
  show ?case
  proof (cases y)
    case None
    with a b xy Cons.IH [of db1] Cons.IH [of db2] show ?thesis by simp
  next
    case (Some e)
    with a b xy show ?thesis by simp
  qed
qed

lemma writeRecords_simps [simp]:
  "writeRecords P n t [] = None"
  "writeRecords P n t (r # rs) =
     (case fst (writeRecordToPostgres P n t r []) of
        Some err \<Rightarrow> Some err
      | None \<Rightarrow> writeRecords P n t rs)"
proof -
  show "writeRecords P n t [] = None" by (simp add: writeRecords_def)
  obtain y db2 where b: "writeRecordToPostgres P n t r [] = (y, db2)"
    by (cases "writeRecordToPostgres P n t r []")
  show "writeRecords P n t (r # rs) =
     (case fst (writeRecordToPostgres P n t r []) of
        Some err \<Rightarrow> Some err
      | None \<Rightarrow> writeRecords P n t rs)"
    using writeLoop_fst [of P n t rs db2]
    by (cases y) (simp_all add: writeRecords_def b)
qed

lemma writeToClickhouse_fst:
  "fst (writeToClickhouse P t rs s) = writeRecords P (length (writes s)) t (map (heap s) rs)"
  using writeLoop_fst [of P "length (writes s)" t "map (heap s) rs" "upserted s"]
  by (auto simp: writeToClickhouse_def Let_def split: option.splits prod.splits)

lemma writeToClickhouse_snd [simp]:
  "queue (snd (writeToClickhouse P t rs s)) = queue s"
  "heap (snd (writeToClickhouse P t rs s)) = heap s"
  "errorCount (snd (writeToClickhouse P t rs s)) = errorCount s"
  "intervalId (snd (writeToClickhouse P t rs s)) = intervalId s"
  "writes (snd (writeToClickhouse P t rs s)) = writes s @ [(t, map (heap s) rs)]"
  "upserted (snd (writeToClickhouse P t rs s)) =
     snd (writeLoop P (length (writes s)) t (map (heap s) rs) (upserted s))"
  by (simp_all add: writeToClickhouse_def Let_def split: option.splits prod.splits)

lemma request_fst:
  "fst (request P t c) =
     writeRecords P (length (writes (world c))) t (map (heap (world c)) (recordsToWrite c))"
  by (simp add: request_def writeToClickhouse_fst split: prod.splits)
     (metis fst_conv writeToClickhouse_fst)

lemma request_snd [simp]:
  "queueItems (snd (request P t c)) = queueItems c"
  "recordsToWrite (snd (request P t c)) = recordsToWrite c"
  "hasBeenTruncated (snd (request P t c)) = hasBeenTruncated c"
  "world (snd (request P t c)) = snd (writeToClickhouse P t (recordsToWrite c) (world c))"
  by (simp_all add: request_def split: prod.splits)

lemma backOff_execute_limit:
  "N \<le> int k \<Longrightarrow>
   backOff_execute req rty N k s = (Some (JsObject (Some ''Something went wrong.'')), s)"
  by (simp add: backOff_execute.simps)

lemma backOff_execute_success:
  "int k < N \<Longrightarrow> req s = (None, s1) \<Longrightarrow> backOff_execute req rty N k s = (None, s1)"
  by (simp add: backOff_execute.simps)

lemma backOff_execute_again:
  "int k < N \<Longrightarrow> req s = (Some e, s1) \<Longrightarrow> rty e (Suc k) s1 = (Inr True, s2) \<Longrightarrow>
   int (Suc k) < N \<Longrightarrow>
   backOff_execute req rty N k s = backOff_execute req rty N (Suc k) s2"
  by (subst backOff_execute.simps) simp

lemma backOff_execute_last:
  "int k < N \<Longrightarrow> req s = (Some e, s1) \<Longrightarrow> rty e (Suc k) s1 = (Inr b, s2) \<Longrightarrow>
   \<not> b \<or> N \<le> int (Suc k) \<Longrightarrow>
   backOff_execute req rty N k s = (Some e, s2)"
  by (subst backOff_execute.simps) auto

lemma backOff_execute_thrown:
  "int k < N \<Longrightarrow> req s = (Some e, s1) \<Longrightarrow> rty e (Suc k) s1 = (Inl x, s2) \<Longrightarrow>
   backOff_execute req rty N k s = (Some x, s2)"
  by (subst backOff_execute.simps) simp

lemma backOff_execute_invariant:
  assumes init: "I s"
    and req: "\<And>s r s1. I s \<Longrightarrow> req s = (r, s1) \<Longrightarrow> I s1"
    and rty: "\<And>e k s r s1. I s \<Longrightarrow> rty e k s = (r, s1) \<Longrightarrow> I s1"
  shows "I (snd (backOff_execute req rty N k s))"
  using init
proof (induction n \<equiv> "nat (N - int k)" arbitrary: k s)
  case 0
  then show ?case by (simp add: backOff_execute_limit)
next
  case (Suc n)
  then have lt: "int k < N" and n: "n = nat (N - int (Suc k))" by auto
  obtain r s1 where r: "req s = (r, s1)" by (cases "req s")
  have I1: "I s1" using req [OF Suc.prems r] .
  show ?case
  proof (cases r)
    case None
    with lt r I1 show ?thesis by (simp add: backOff_execute_success)
  next
    case (Some e)
    obtain y s2 where y: "rty e (Suc k) s1 = (y, s2)" by (cases "rty e (Suc k) s1")
    have I2: "I s2" using rty [OF I1 y] .
    show ?thesis
    proof (cases y)
      case (Inl x)
      with lt r Some y I2 show ?thesis by (simp add: backOff_execute_thrown)
    next
      case (Inr b)
      show ?thesis
      proof (cases "b \<and> int (Suc k) < N")
        case True
        then have "backOff_execute req rty N k s = backOff_execute req rty N (Suc k) s2"
          using lt r Some y Inr by (intro backOff_execute_again) auto
        with Suc.hyps(1) [OF n I2] show ?thesis by simp
      next
        case False
        then have "backOff_execute req rty N k s = (Some e, s2)"
          using lt r Some y Inr by (intro backOff_execute_last [where b = b]) auto
        with I2 show ?thesis by simp
      qed
    qed
  qed
qed

lemma handleStringLengthError_single:
  "handleStringLengthError t [item] s =
     (([item], []),
      addLog (WarnSingleRecord t) (s\<lparr>heap := (heap s)(data item := truncated (heap s (data item)))\<rparr>))"
  by (simp add: handleStringLengthError_def truncateOversizedRecord_eq)

lemma handleStringLengthError_split:
  "length items \<noteq> 1 \<Longrightarrow>
   handleStringLengthError t items s =
     ((take (length items div 2) items, drop (length items div 2) items), s)"
  by (cases items; cases "tl items") (auto simp: handleStringLengthError_def Let_def)

lemma retry_retryable:
  "isRetryableError e \<Longrightarrow>
   retry t e k c = (Inr True, c\<lparr>world := addLog (WarnRetryable t k) (world c)\<rparr>)"
  by (simp add: retry_def)

lemma retry_split:
  assumes "\<not> isRetryableError e" "isStringLengthError e" "length (queueItems c) \<noteq> 1"
  shows "retry t e k c =
     (Inr True,
      c\<lparr>recordsToWrite := map data (take (length (queueItems c) div 2) (queueItems c)),
        queueItems := take (length (queueItems c) div 2) (queueItems c),
        world := (addLog (WarnStringLength t k (length (queueItems c))) (world c))
                   \<lparr>queue := (queue (world c))
                      (t := drop (length (queueItems c) div 2) (queueItems c) @ queue (world c) t)\<rparr>\<rparr>)"
proof (cases "queueItems c = []")
  case True
  with assms show ?thesis
    by (simp add: retry_def handleStringLengthError_split addLog_def)
next
  case False
  then have "drop (length (queueItems c) div 2) (queueItems c) \<noteq> []"
    by (cases "queueItems c") auto
  with assms show ?thesis
    by (simp add: retry_def handleStringLengthError_split)
qed

lemma retry_single:
  assumes "\<not> isRetryableError e" "isStringLengthError e" "queueItems c = [item]"
  shows "retry t e k c =
     (Inr True,
      c\<lparr>recordsToWrite := [data item],
        queueItems := [item],
        world := addLog (WarnSingleRecord t)
                   ((addLog (WarnStringLength t k 1) (world c))
                      \<lparr>heap := (heap (world c))(data item := truncated (heap (world c) (data item)))\<rparr>)\<rparr>)"
  using assms by (simp add: retry_def handleStringLengthError_single)

lemma retry_size:
  assumes "\<not> isRetryableError e" "\<not> isStringLengthError e" "isSizeError e" "\<not> hasBeenTruncated c"
  shows "retry t e k c =
     (Inr True,
      c\<lparr>recordsToWrite := recordsToWrite c,
        hasBeenTruncated := True,
        world := (addLog (WarnSizeError t k) (world c))
                   \<lparr>heap := (\<lambda>a. if a \<in> set (recordsToWrite c) then truncated (heap (world c) a)
                                else heap (world c) a)\<rparr>\<rparr>)"
  using assms
  by (auto simp: retry_def truncateAll_eq Let_def fun_eq_iff intro!: cycle.equality state.equality)

lemma retry_fatal:
  assumes "\<not> isRetryableError e" "\<not> isStringLengthError e" "\<not> isSizeError e \<or> hasBeenTruncated c"
  shows "retry t e k c =
     (if e = JsNull \<or> e = JsUndefined then (Inl typeError, c)
      else (Inr False, c\<lparr>world := addLog ErrorNonRetryable (world c)\<rparr>))"
  using assms by (cases e) (auto simp: retry_def)

lemma retry_cases:
  obtains
    (retryable) "isRetryableError e"
  | (split) "\<not> isRetryableError e" "isStringLengthError e" "length (queueItems (c :: cycle)) \<noteq> 1"
  | (single) item where "\<not> isRetryableError e" "isStringLengthError e" "queueItems c = [item]"
  | (size) "\<not> isRetryableError e" "\<not> isStringLengthError e" "isSizeError e" "\<not> hasBeenTruncated c"
  | (fatal) "\<not> isRetryableError e" "\<not> isStringLengthError e" "\<not> isSizeError e \<or> hasBeenTruncated c"
proof -
  have "length (queueItems c) = 1 \<Longrightarrow> \<exists>item. queueItems c = [item]"
    by (cases "queueItems c") auto
  then show ?thesis
    using retryable split single size fatal by blast
qed

lemma cycle_inv_request:
  "cycle_inv t batch s0 c \<Longrightarrow> request P t c = (r, c1) \<Longrightarrow> cycle_inv t batch s0 c1"
  by (auto simp: cycle_inv_def request_def writeToClickhouse_def Let_def addLog_def
           split: prod.splits option.splits)

lemma cycle_inv_retry:
  assumes "cycle_inv t batch s0 c" "retry t e k c = (r, c1)"
  shows "cycle_inv t batch s0 c1"
proof (cases rule: retry_cases [where e = e and c = c])
  case retryable
  with assms show ?thesis by (auto simp: retry_retryable cycle_inv_def)
next
  case split
  from assms(1) obtain front where f: "queueItems c @ front = batch"
      "queue (world c) t = front @ queue s0 t"
    by (auto simp: cycle_inv_def)
  let ?n = "length (queueItems c) div 2"
  have "take ?n (queueItems c) @ (drop ?n (queueItems c) @ front) = batch"
    using f(1) by (metis append_assoc append_take_drop_id)
  moreover have "drop ?n (queueItems c) @ queue (world c) t =
      (drop ?n (queueItems c) @ front) @ queue s0 t"
    using f(2) by simp
  ultimately show ?thesis
    using assms split by (auto simp: retry_split cycle_inv_def)
next
  case (single item)
  with assms show ?thesis by (auto simp: retry_single cycle_inv_def)
next
  case size
  with assms show ?thesis by (auto simp: retry_size cycle_inv_def)
next
  case fatal
  with assms show ?thesis by (auto simp: retry_fatal cycle_inv_def split: if_splits)
qed

lemma cycle_inv_backOff:
  "cycle_inv t batch s0 c \<Longrightarrow>
   cycle_inv t batch s0 (snd (backOff (request P t) (retry t) N c))"
  unfolding backOff_def
  by (rule backOff_execute_invariant [where I = "cycle_inv t batch s0"])
     (auto intro: cycle_inv_request cycle_inv_retry)

lemma ex_classes:
  "isRetryableError socketHangUp" "\<not> isRetryableError invalidStringLength"
  "isStringLengthError invalidStringLength" "\<not> isRetryableError tooLarge"
  "\<not> isStringLengthError tooLarge" "isSizeError tooLarge"
  "\<not> isRetryableError uniqueViolation" "\<not> isStringLengthError uniqueViolation"
  "\<not> isSizeError uniqueViolation"
  by (simp_all add: isRetryableError_def isStringLengthError_def isSizeError_def errorMessage_def
        toLowerCase_def lower_char_def socketHangUp_def invalidStringLength_def tooLarge_def
        uniqueViolation_def)


lemma requeueOrDrop_keep:
  "attempts i < maxAttempts cfg \<Longrightarrow>
   requeueOrDrop cfg t (s, d) i =
     (s\<lparr>queue := (queue s)(t := queue s t @ [i\<lparr>attempts := attempts i + 1\<rparr>])\<rparr>, d)"
  by (simp add: requeueOrDrop_def)

lemma requeueOrDrop_drop:
  "\<not> attempts i < maxAttempts cfg \<Longrightarrow>
   requeueOrDrop cfg t (s, d) i = (s\<lparr>errorCount := errorCount s + 1\<rparr>, d + 1)"
  by (simp add: requeueOrDrop_def)

lemma foldl_requeueOrDrop:
  "foldl (requeueOrDrop cfg t) (s, d) items = (s', d') \<Longrightarrow>
     queue s' t = queue s t @ map (\<lambda>i. i\<lparr>attempts := attempts i + 1\<rparr>)
                                (filter (\<lambda>i. attempts i < maxAttempts cfg) items) \<and>
     (\<forall>t'. t' \<noteq> t \<longrightarrow> queue s' t' = queue s t') \<and>
     errorCount s' = errorCount s + length (filter (\<lambda>i. \<not> attempts i < maxAttempts cfg) items) \<and>
     d' = d + length (filter (\<lambda>i. \<not> attempts i < maxAttempts cfg) items) \<and>
     heap s' = heap s \<and> writes s' = writes s \<and> intervalId s' = intervalId s"
proof (induction items arbitrary: s d)
  case Nil
  then show ?case by simp
next
  case (Cons i items)
  show ?case
  proof (cases "attempts i < maxAttempts cfg")
    case True
    with Cons.prems have
      "foldl (requeueOrDrop cfg t)
         (s\<lparr>queue := (queue s)(t := queue s t @ [i\<lparr>attempts := attempts i + 1\<rparr>])\<rparr>, d) items = (s', d')"
      by (simp add: requeueOrDrop_keep)
    from Cons.IH [OF this] True show ?thesis by simp
  next
    case False
    with Cons.prems have
      "foldl (requeueOrDrop cfg t) (s\<lparr>errorCount := errorCount s + 1\<rparr>, d + 1) items = (s', d')"
      by (simp add: requeueOrDrop_drop)
    from Cons.IH [OF this] False show ?thesis by simp
  qed
qed

lemma flushCatch_effect:
  "queue (flushCatch cfg t err items s) t =
      queue s t @ map (\<lambda>i. i\<lparr>attempts := attempts i + 1\<rparr>)
                      (filter (\<lambda>i. attempts i < maxAttempts cfg) items) \<and>
   (\<forall>t'. t' \<noteq> t \<longrightarrow> queue (flushCatch cfg t err items s) t' = queue s t') \<and>
   errorCount (flushCatch cfg t err items s) =
      errorCount s + length (filter (\<lambda>i. \<not> attempts i < maxAttempts cfg) items) \<and>
   heap (flushCatch cfg t err items s) = heap s \<and>
   writes (flushCatch cfg t err items s) = writes s \<and>
   intervalId (flushCatch cfg t err items s) = intervalId s"
proof -
  obtain s' d' where f:
    "foldl (requeueOrDrop cfg t) (addLog (ErrorFlush t err) s, 0) items = (s', d')"
    by (cases "foldl (requeueOrDrop cfg t) (addLog (ErrorFlush t err) s, 0) items")
  from foldl_requeueOrDrop [OF f] show ?thesis
    by (simp add: flushCatch_def f)
qed

lemma flushCatch_queue:
  "queue (flushCatch cfg t err items s) t =
      queue s t @ map (\<lambda>i. i\<lparr>attempts := attempts i + 1\<rparr>)
                      (filter (\<lambda>i. attempts i < maxAttempts cfg) items)"
  using flushCatch_effect [of cfg t err items s] by simp

lemma flushCatch_queue_other:
  "t' \<noteq> t \<Longrightarrow> queue (flushCatch cfg t err items s) t' = queue s t'"
  using flushCatch_effect [of cfg t err items s] by simp

lemma flushCatch_errorCount:
  "errorCount (flushCatch cfg t err items s) =
      errorCount s + length (filter (\<lambda>i. \<not> attempts i < maxAttempts cfg) items)"
  using flushCatch_effect [of cfg t err items s] by simp

lemma flushCatch_frame:
  "heap (flushCatch cfg t err items s) = heap s"
  "writes (flushCatch cfg t err items s) = writes s"
  "intervalId (flushCatch cfg t err items s) = intervalId s"
  using flushCatch_effect [of cfg t err items s] by simp_all

lemma flush_empty: "queue s t = [] \<Longrightarrow> flush cfg P t full s = s"
  by (simp add: flush_def)

lemma flush_nonempty:
  "queue s t \<noteq> [] \<Longrightarrow>
   flush cfg P t full s =
     (case backOff (request P t) (retry t) (envMaxAttempts cfg) (cycleStart cfg t full s) of
        (None, c1) \<Rightarrow> world c1
      | (Some err, c1) \<Rightarrow> flushCatch cfg t err (queueItems c1) (world c1))"
  by (simp add: flush_def cycleStart_def Let_def)

lemma cycle_inv_start:
  "cycle_inv t (queueItems (cycleStart cfg t full s)) (world (cycleStart cfg t full s))
     (cycleStart cfg t full s)"
  by (simp add: cycle_inv_def cycleStart_def Let_def)

lemma cycleStart_simps:
  "queueItems (cycleStart cfg t full s) =
     take (if full then length (queue s t) else batchSize cfg) (queue s t)"
  "recordsToWrite (cycleStart cfg t full s) =
     map data (take (if full then length (queue s t) else batchSize cfg) (queue s t))"
  "hasBeenTruncated (cycleStart cfg t full s) = False"
  "queue (world (cycleStart cfg t full s)) =
     (queue s)(t := drop (if full then length (queue s t) else batchSize cfg) (queue s t))"
  "heap (world (cycleStart cfg t full s)) = heap s"
  "writes (world (cycleStart cfg t full s)) = writes s"
  "errorCount (world (cycleStart cfg t full s)) = errorCount s"
  "intervalId (world (cycleStart cfg t full s)) = intervalId s"
  "logs (world (cycleStart cfg t full s)) = logs s"
  by (simp_all add: cycleStart_def Let_def)


lemma request_eq:
  "request P t c =
     (writeRecords P (length (writes (world c))) t (map (heap (world c)) (recordsToWrite c)),
      snd (request P t c))"
  by (metis request_fst prod.collapse)

lemma backOff_start:
  "backOff req rty N c = backOff_execute req rty (max 1 N) 0 c"
  by (simp add: backOff_def max_def)

lemma backOff_fatal:
  assumes cls: "\<not> isRetryableError e" "\<not> isStringLengthError e"
      "\<not> isSizeError e \<or> hasBeenTruncated c"
    and fail: "writeRecords P (length (writes (world c))) t
                 (map (heap (world c)) (recordsToWrite c)) = Some e"
    and lim: "int k < N"
  shows "\<exists>err c'. backOff_execute (request P t) (retry t) N k c = (Some err, c') \<and>
           queueItems c' = queueItems c \<and> recordsToWrite c' = recordsToWrite c \<and>
           hasBeenTruncated c' = hasBeenTruncated c \<and>
           queue (world c') = queue (world c) \<and> heap (world c') = heap (world c) \<and>
           errorCount (world c') = errorCount (world c) \<and>
           intervalId (world c') = intervalId (world c) \<and>
           writes (world c') =
             writes (world c) @ [(t, map (heap (world c)) (recordsToWrite c))]"
proof -
  let ?c1 = "snd (request P t c)"
  have r: "request P t c = (Some e, ?c1)"
    using request_eq [of P t c] fail by simp
  have cls1: "\<not> isSizeError e \<or> hasBeenTruncated ?c1" using cls(3) by simp
  show ?thesis
  proof (cases "e = JsNull \<or> e = JsUndefined")
    case True
    then have "retry t e (Suc k) ?c1 = (Inl typeError, ?c1)"
      using retry_fatal [OF cls(1,2) cls1] by simp
    from backOff_execute_thrown [where req = "request P t" and rty = "retry t", OF lim r this] show ?thesis by simp
  next
    case False
    then have "retry t e (Suc k) ?c1 =
        (Inr False, ?c1\<lparr>world := addLog ErrorNonRetryable (world ?c1)\<rparr>)"
      using retry_fatal [OF cls(1,2) cls1] by simp
    from backOff_execute_last [where req = "request P t" and rty = "retry t", OF lim r this] show ?thesis by simp
  qed
qed

lemma flush_fatal:
  assumes cls: "\<not> isRetryableError e" "\<not> isStringLengthError e" "\<not> isSizeError e"
    and ne: "queue s t \<noteq> []"
    and fail: "writeRecords P (length (writes s)) t
        (map (heap s) (map data (take (if full then length (queue s t) else batchSize cfg) (queue s t))))
          = Some e"
  shows "writes (flush cfg P t full s) =
           writes s @ [(t, map (heap s) (map data
              (take (if full then length (queue s t) else batchSize cfg) (queue s t))))] \<and>
         heap (flush cfg P t full s) = heap s \<and>
         queue (flush cfg P t full s) =
           (queue s)(t := drop (if full then length (queue s t) else batchSize cfg) (queue s t) @
              map (\<lambda>i. i\<lparr>attempts := attempts i + 1\<rparr>)
                (filter (\<lambda>i. attempts i < maxAttempts cfg)
                   (take (if full then length (queue s t) else batchSize cfg) (queue s t)))) \<and>
         errorCount (flush cfg P t full s) =
           errorCount s + length (filter (\<lambda>i. \<not> attempts i < maxAttempts cfg)
              (take (if full then length (queue s t) else batchSize cfg) (queue s t)))"
proof -
  define n where "n = (if full then length (queue s t) else batchSize cfg)"
  let ?c0 = "cycleStart cfg t full s"
  have c0: "queueItems ?c0 = take n (queue s t)" "recordsToWrite ?c0 = map data (take n (queue s t))"
    "queue (world ?c0) = (queue s)(t := drop n (queue s t))"
    "heap (world ?c0) = heap s" "writes (world ?c0) = writes s"
    "errorCount (world ?c0) = errorCount s"
    by (simp_all add: cycleStart_simps n_def)
  have fail0: "writeRecords P (length (writes (world ?c0))) t
                 (map (heap (world ?c0)) (recordsToWrite ?c0)) = Some e"
    using fail by (simp add: c0 n_def)
  have "int 0 < max 1 (envMaxAttempts cfg)" by simp
  from backOff_fatal [OF cls(1,2) _ fail0 this] cls(3)
  obtain err c' where b: "backOff (request P t) (retry t) (envMaxAttempts cfg) ?c0 = (Some err, c')"
    and c': "queueItems c' = take n (queue s t)" "queue (world c') = (queue s)(t := drop n (queue s t))"
      "heap (world c') = heap s" "errorCount (world c') = errorCount s"
      "writes (world c') = writes s @ [(t, map (heap s) (map data (take n (queue s t))))]"
    by (auto simp: backOff_start c0)
  have fl: "flush cfg P t full s = flushCatch cfg t err (take n (queue s t)) (world c')"
    using ne by (simp add: flush_nonempty b c')
  have q: "queue (flush cfg P t full s) =
           (queue s)(t := drop n (queue s t) @
              map (\<lambda>i. i\<lparr>attempts := attempts i + 1\<rparr>)
                (filter (\<lambda>i. attempts i < maxAttempts cfg) (take n (queue s t))))"
  proof
    fix t'
    show "queue (flush cfg P t full s) t' =
           ((queue s)(t := drop n (queue s t) @
              map (\<lambda>i. i\<lparr>attempts := attempts i + 1\<rparr>)
                (filter (\<lambda>i. attempts i < maxAttempts cfg) (take n (queue s t))))) t'"
      by (cases "t' = t") (simp_all add: fl flushCatch_queue flushCatch_queue_other c')
  qed
  show ?thesis
    unfolding n_def [symmetric]
    by (simp add: q) (simp add: fl flushCatch_frame flushCatch_errorCount c')
qed


lemma backOff_fatal_stops:
  assumes cls: "\<not> isRetryableError e" "\<not> isStringLengthError e"
      "\<not> isSizeError e \<or> hasBeenTruncated c"
    and fail: "writeRecords P (length (writes (world c))) t
                 (map (heap (world c)) (recordsToWrite c)) = Some e"
    and lim: "int k < N"
  shows "fst (backOff_execute (request P t) (retry t) N k c) \<noteq> None \<and>
         queueItems (snd (backOff_execute (request P t) (retry t) N k c)) = queueItems c \<and>
         recordsToWrite (snd (backOff_execute (request P t) (retry t) N k c)) = recordsToWrite c \<and>
         hasBeenTruncated (snd (backOff_execute (request P t) (retry t) N k c)) = hasBeenTruncated c \<and>
         queue (world (snd (backOff_execute (request P t) (retry t) N k c))) = queue (world c) \<and>
         heap (world (snd (backOff_execute (request P t) (retry t) N k c))) = heap (world c) \<and>
         writes (world (snd (backOff_execute (request P t) (retry t) N k c))) =
           writes (world c) @ [(t, map (heap (world c)) (recordsToWrite c))]"
proof -
  from backOff_fatal [OF assms] obtain err c' where
    "backOff_execute (request P t) (retry t) N k c = (Some err, c')"
    "queueItems c' = queueItems c" "recordsToWrite c' = recordsToWrite c"
    "hasBeenTruncated c' = hasBeenTruncated c"
    "queue (world c') = queue (world c)" "heap (world c') = heap (world c)"
    "writes (world c') = writes (world c) @ [(t, map (heap (world c)) (recordsToWrite c))]"
    by blast
  then show ?thesis by simp
qed


lemma backOff_retryable_then_success:
  assumes fails: "\<forall>i<j. \<exists>e. writeRecords P (length (writes (world c)) + i) t
                        (map (heap (world c)) (recordsToWrite c)) = Some e \<and> isRetryableError e"
    and ok: "writeRecords P (length (writes (world c)) + j) t
                        (map (heap (world c)) (recordsToWrite c)) = None"
    and lim: "int (k + j) < N"
  shows "fst (backOff_execute (request P t) (retry t) N k c) = None \<and>
         queueItems (snd (backOff_execute (request P t) (retry t) N k c)) = queueItems c \<and>
         recordsToWrite (snd (backOff_execute (request P t) (retry t) N k c)) = recordsToWrite c \<and>
         hasBeenTruncated (snd (backOff_execute (request P t) (retry t) N k c)) = hasBeenTruncated c \<and>
         queue (world (snd (backOff_execute (request P t) (retry t) N k c))) = queue (world c) \<and>
         heap (world (snd (backOff_execute (request P t) (retry t) N k c))) = heap (world c) \<and>
         errorCount (world (snd (backOff_execute (request P t) (retry t) N k c))) = errorCount (world c) \<and>
         writes (world (snd (backOff_execute (request P t) (retry t) N k c))) =
           writes (world c) @ replicate (Suc j) (t, map (heap (world c)) (recordsToWrite c))"
  using assms
proof (induction j arbitrary: k c)
  case 0
  let ?c1 = "snd (request P t c)"
  have r: "request P t c = (None, ?c1)"
    using request_eq [of P t c] "0.prems"(2) by simp
  have "int k < N" using "0.prems"(3) by simp
  from backOff_execute_success [where req = "request P t" and rty = "retry t", OF this r]
  show ?case by simp
next
  case (Suc j)
  let ?c1 = "snd (request P t c)"
  from Suc.prems(1) obtain e where e: "writeRecords P (length (writes (world c))) t
      (map (heap (world c)) (recordsToWrite c)) = Some e" "isRetryableError e"
    by force
  have r: "request P t c = (Some e, ?c1)"
    using request_eq [of P t c] e(1) by simp
  let ?c2 = "?c1\<lparr>world := addLog (WarnRetryable t (Suc k)) (world ?c1)\<rparr>"
  have y: "retry t e (Suc k) ?c1 = (Inr True, ?c2)"
    using e(2) by (simp add: retry_retryable)
  have lim: "int k < N" "int (Suc k) < N" using Suc.prems(3) by simp_all
  have step: "backOff_execute (request P t) (retry t) N k c =
      backOff_execute (request P t) (retry t) N (Suc k) ?c2"
    by (rule backOff_execute_again [where req = "request P t" and rty = "retry t", OF lim(1) r y lim(2)])
  have w2: "writes (world ?c2) = writes (world c) @ [(t, map (heap (world c)) (recordsToWrite c))]"
    "heap (world ?c2) = heap (world c)" "recordsToWrite ?c2 = recordsToWrite c"
    "queueItems ?c2 = queueItems c" "hasBeenTruncated ?c2 = hasBeenTruncated c"
    "queue (world ?c2) = queue (world c)" "errorCount (world ?c2) = errorCount (world c)"
    by simp_all
  have fails2: "\<forall>i<j. \<exists>e. writeRecords P (length (writes (world ?c2)) + i) t
                        (map (heap (world ?c2)) (recordsToWrite ?c2)) = Some e \<and> isRetryableError e"
  proof (intro allI impI)
    fix i assume "i < j"
    then have "Suc i < Suc j" by simp
    with Suc.prems(1) show "\<exists>e. writeRecords P (length (writes (world ?c2)) + i) t
                        (map (heap (world ?c2)) (recordsToWrite ?c2)) = Some e \<and> isRetryableError e"
      unfolding w2 by (metis add_Suc_right length_append_singleton add_Suc)
  qed
  have ok2: "writeRecords P (length (writes (world ?c2)) + j) t
                        (map (heap (world ?c2)) (recordsToWrite ?c2)) = None"
    using Suc.prems(2) unfolding w2 by simp
  have lim2: "int (Suc k + j) < N" using Suc.prems(3) by simp
  from Suc.IH [OF fails2 ok2 lim2] show ?case
    unfolding step w2 by (simp add: replicate_append_same)
qed


lemma sizeTruncations_simps [simp]:
  "sizeTruncations [] = 0"
  "sizeTruncations (ev # l) =
     (case ev of WarnSizeError t k \<Rightarrow> 1 | _ \<Rightarrow> 0) + sizeTruncations l"
  "sizeTruncations (l @ l') = sizeTruncations l + sizeTruncations l'"
  by (cases ev; simp add: sizeTruncations_def)+

lemma writeToClickhouse_logs [simp]:
  "sizeTruncations (logs (snd (writeToClickhouse P t rs s))) = sizeTruncations (logs s)"
  by (simp add: writeToClickhouse_def Let_def split: option.splits prod.splits)

lemma retry_writes: "writes (world (snd (retry t e k c))) = writes (world c)"
  by (cases rule: retry_cases [where e = e and c = c])
     (simp_all add: retry_retryable retry_split retry_single retry_size retry_fatal)

lemma retry_sizeTruncations:
  "sizeTruncations (logs (world (snd (retry t e k c)))) +
     (if hasBeenTruncated c then 1 else 0) =
   sizeTruncations (logs (world c)) +
     (if hasBeenTruncated (snd (retry t e k c)) then 1 else 0)"
  by (cases rule: retry_cases [where e = e and c = c])
     (simp_all add: retry_retryable retry_split retry_single retry_size retry_fatal)

lemma backOff_sizeTruncations:
  assumes "sizeTruncations (logs (world c)) + (if hasBeenTruncated c then 0 else 1) \<le> b"
  shows "sizeTruncations (logs (world (snd (backOff_execute (request P t) (retry t) N k c)))) +
           (if hasBeenTruncated (snd (backOff_execute (request P t) (retry t) N k c)) then 0 else 1)
         \<le> b"
proof (rule backOff_execute_invariant
    [where I = "\<lambda>c. sizeTruncations (logs (world c)) + (if hasBeenTruncated c then 0 else 1) \<le> b"])
  show "sizeTruncations (logs (world c)) + (if hasBeenTruncated c then 0 else 1) \<le> b"
    by (rule assms)
next
  fix s r s1
  assume a: "sizeTruncations (logs (world s)) + (if hasBeenTruncated s then 0 else 1) \<le> b"
    and r: "request P t s = (r, s1)"
  from r have "s1 = snd (request P t s)" by simp
  with a show "sizeTruncations (logs (world s1)) + (if hasBeenTruncated s1 then 0 else 1) \<le> b"
    by simp
next
  fix e k s r s1
  assume a: "sizeTruncations (logs (world s)) + (if hasBeenTruncated s then 0 else 1) \<le> b"
    and r: "retry t e k s = (r, s1)"
  from r have s1: "s1 = snd (retry t e k s)" by simp
  show "sizeTruncations (logs (world s1)) + (if hasBeenTruncated s1 then 0 else 1) \<le> b"
    using a retry_sizeTruncations [of t e k s] unfolding s1 by (auto split: if_splits)
qed

lemma backOff_writes_bound:
  "length (writes (world (snd (backOff_execute (request P t) (retry t) N k c)))) \<le>
     length (writes (world c)) + nat (N - int k)"
proof (induction n \<equiv> "nat (N - int k)" arbitrary: k c)
  case 0
  then show ?case by (simp add: backOff_execute_limit)
next
  case (Suc n)
  then have lt: "int k < N" and n: "n = nat (N - int (Suc k))" by auto
  let ?c1 = "snd (request P t c)"
  let ?c2 = "snd (retry t (the (fst (request P t c))) (Suc k) ?c1)"
  have w1: "length (writes (world ?c1)) = length (writes (world c)) + 1" by simp
  show ?case
  proof (cases "fst (request P t c)")
    case None
    then have "request P t c = (None, ?c1)" by (metis prod.collapse)
    from backOff_execute_success [where req = "request P t" and rty = "retry t", OF lt this]
    show ?thesis using Suc.hyps(2) by simp
  next
    case (Some e)
    then have r: "request P t c = (Some e, ?c1)" by (metis prod.collapse)
    let ?y = "fst (retry t e (Suc k) ?c1)"
    let ?c2 = "snd (retry t e (Suc k) ?c1)"
    have y: "retry t e (Suc k) ?c1 = (?y, ?c2)" by simp
    have w2: "length (writes (world ?c2)) = length (writes (world c)) + 1"
      by (simp add: retry_writes)
    show ?thesis
    proof (cases ?y)
      case (Inl x)
      with y have "retry t e (Suc k) ?c1 = (Inl x, ?c2)" by simp
      from backOff_execute_thrown [where req = "request P t" and rty = "retry t", OF lt r this]
      show ?thesis using w2 Suc.hyps(2) by simp
    next
      case (Inr b)
      with y have yb: "retry t e (Suc k) ?c1 = (Inr b, ?c2)" by simp
      show ?thesis
      proof (cases "b \<and> int (Suc k) < N")
        case True
        then have yt: "retry t e (Suc k) ?c1 = (Inr True, ?c2)" using yb by simp
        have "backOff_execute (request P t) (retry t) N k c =
            backOff_execute (request P t) (retry t) N (Suc k) ?c2"
          using backOff_execute_again [where req = "request P t" and rty = "retry t", OF lt r yt]
            True by simp
        with Suc.hyps(1) [OF n, of ?c2] w2 Suc.hyps(2) show ?thesis by simp
      next
        case False
        then have "backOff_execute (request P t) (retry t) N k c = (Some e, ?c2)"
          using backOff_execute_last [where req = "request P t" and rty = "retry t", OF lt r yb]
          by auto
        with w2 Suc.hyps(2) show ?thesis by simp
      qed
    qed
  qed
qed

lemma foldl_requeueOrDrop_logs:
  "logs (fst (foldl (requeueOrDrop cfg t) (s, d) items)) = logs s"
proof (induction items arbitrary: s d)
  case Nil
  show ?case by simp
next
  case (Cons i items)
  show ?case
    by (cases "attempts i < maxAttempts cfg")
       (simp_all add: requeueOrDrop_keep requeueOrDrop_drop Cons.IH)
qed

lemma flushCatch_sizeTruncations:
  "sizeTruncations (logs (flushCatch cfg t err items s)) = sizeTruncations (logs s)"
proof -
  obtain s' d' where f:
    "foldl (requeueOrDrop cfg t) (addLog (ErrorFlush t err) s, 0) items = (s', d')"
    by (cases "foldl (requeueOrDrop cfg t) (addLog (ErrorFlush t err) s, 0) items")
  have "logs s' = logs s @ [ErrorFlush t err]"
    using foldl_requeueOrDrop_logs [of cfg t "addLog (ErrorFlush t err) s" 0 items] f by simp
  then show ?thesis
    by (simp add: flushCatch_def f)
qed

lemma flush_sizeTruncations:
  "sizeTruncations (logs (flush cfg P t full s)) \<le> sizeTruncations (logs s) + 1"
proof (cases "queue s t = []")
  case True
  then show ?thesis by (simp add: flush_empty)
next
  case False
  let ?c0 = "cycleStart cfg t full s"
  let ?b = "backOff_execute (request P t) (retry t) (max 1 (envMaxAttempts cfg)) 0 ?c0"
  have "sizeTruncations (logs (world ?c0)) + (if hasBeenTruncated ?c0 then 0 else 1)
      \<le> sizeTruncations (logs s) + 1"
    by (simp add: cycleStart_simps)
  from backOff_sizeTruncations [OF this, of P t "max 1 (envMaxAttempts cfg)" 0]
  have le: "sizeTruncations (logs (world (snd ?b))) \<le> sizeTruncations (logs s) + 1"
    by (simp split: if_splits)
  show ?thesis
    using False le
    by (cases "fst ?b")
       (simp_all add: flush_nonempty backOff_start case_prod_beta flushCatch_sizeTruncations)
qed

lemma flush_writes_bound:
  "length (writes (flush cfg P t full s)) \<le> length (writes s) + nat (max 1 (envMaxAttempts cfg))"
proof (cases "queue s t = []")
  case True
  then show ?thesis by (simp add: flush_empty)
next
  case False
  let ?c0 = "cycleStart cfg t full s"
  let ?b = "backOff_execute (request P t) (retry t) (max 1 (envMaxAttempts cfg)) 0 ?c0"
  have le: "length (writes (world (snd ?b))) \<le> length (writes s) + nat (max 1 (envMaxAttempts cfg))"
    using backOff_writes_bound [of P t "max 1 (envMaxAttempts cfg)" 0 ?c0]
    by (simp add: cycleStart_simps)
  show ?thesis
    using False le
    by (cases "fst ?b")
       (simp_all add: flush_nonempty backOff_start case_prod_beta flushCatch_frame)
qed


lemma ex_cycle1:
  "queueItems cycle1 = [mkItem 1 7]" "recordsToWrite cycle1 = [7]"
  "hasBeenTruncated cycle1 = False" "heap (world cycle1) = exampleStore"
  "writes (world cycle1) = []"
  by (simp_all add: cycle1_def cycleStart_simps stateWith_def exampleConfig_def mkItem_def
        newWriter_def)

lemma ex_truncated_big:
  "input (truncated bigRecord) = Val (replicate 512000 CHR ''x'' @ truncationMessage)"
  by (simp add: truncated_def bigRecord_def oversized_def truncateField_def maxFieldSize_def)

lemma ex_objects:
  "tooLarge \<noteq> JsNull" "tooLarge \<noteq> JsUndefined"
  "uniqueViolation \<noteq> JsNull" "uniqueViolation \<noteq> JsUndefined"
  by (simp_all add: tooLarge_def uniqueViolation_def)


lemma flush_retryable_then_success:
  assumes ne: "queue s t \<noteq> []"
    and fails: "\<forall>i<k. \<exists>e. writeRecords P (length (writes s) + i) t
        (map (heap s) (map data (take (if full then length (queue s t) else batchSize cfg) (queue s t))))
          = Some e \<and> isRetryableError e"
    and ok: "writeRecords P (length (writes s) + k) t
        (map (heap s) (map data (take (if full then length (queue s t) else batchSize cfg) (queue s t))))
          = None"
    and cap: "int k < max 1 (envMaxAttempts cfg)"
  shows "writes (flush cfg P t full s) =
           writes s @ replicate (k + 1)
             (t, map (heap s) (map data
                (take (if full then length (queue s t) else batchSize cfg) (queue s t)))) \<and>
         heap (flush cfg P t full s) = heap s \<and>
         queue (flush cfg P t full s) =
           (queue s)(t := drop (if full then length (queue s t) else batchSize cfg) (queue s t)) \<and>
         errorCount (flush cfg P t full s) = errorCount s"
proof -
  define n where "n = (if full then length (queue s t) else batchSize cfg)"
  let ?c0 = "cycleStart cfg t full s"
  let ?b = "backOff_execute (request P t) (retry t) (max 1 (envMaxAttempts cfg)) 0 ?c0"
  have c0: "recordsToWrite ?c0 = map data (take n (queue s t))"
    "queue (world ?c0) = (queue s)(t := drop n (queue s t))"
    "heap (world ?c0) = heap s" "writes (world ?c0) = writes s"
    "errorCount (world ?c0) = errorCount s"
    by (simp_all add: cycleStart_simps n_def)
  have f0: "\<forall>i<k. \<exists>e. writeRecords P (length (writes (world ?c0)) + i) t
                        (map (heap (world ?c0)) (recordsToWrite ?c0)) = Some e \<and> isRetryableError e"
    using fails unfolding c0 n_def by simp
  have o0: "writeRecords P (length (writes (world ?c0)) + k) t
                        (map (heap (world ?c0)) (recordsToWrite ?c0)) = None"
    using ok unfolding c0 n_def by simp
  have l0: "int (0 + k) < max 1 (envMaxAttempts cfg)" using cap by simp
  note r = backOff_retryable_then_success [OF f0 o0 l0]
  have fl: "flush cfg P t full s = world (snd ?b)"
    using ne r by (simp add: flush_nonempty backOff_start case_prod_beta)
  show ?thesis
    unfolding n_def [symmetric] fl using r by (simp add: c0)
qed


lemma writeRecords_healthy:
  "\<forall>n t r. P n t r = None \<Longrightarrow> writeRecords P n t rs = None"
proof (induction rs)
  case Nil
  show ?case by simp
next
  case (Cons r rs)
  then have w: "fst (writeRecordToPostgres P n t r []) = None" by (cases t) simp_all
  have ih: "writeRecords P n t rs = None" using Cons by blast
  show ?case by (simp only: writeRecords_simps w ih option.case)
qed

lemma flush_intervalId: "intervalId (flush cfg P t full s) = intervalId s"
proof (cases "queue s t = []")
  case True
  then show ?thesis by (simp add: flush_empty)
next
  case False
  let ?c0 = "cycleStart cfg t full s"
  let ?b = "backOff (request P t) (retry t) (envMaxAttempts cfg) ?c0"
  have "cycle_inv t (queueItems ?c0) (world ?c0) (snd ?b)"
    by (rule cycle_inv_backOff [OF cycle_inv_start])
  then have "intervalId (world (snd ?b)) = intervalId s"
    by (simp add: cycle_inv_def cycleStart_simps)
  then show ?thesis
    using False
    by (cases "fst ?b") (simp_all add: flush_nonempty case_prod_beta flushCatch_frame)
qed

lemma flush_full_healthy:
  assumes h: "\<forall>n t r. P n t r = None"
  shows "queue (flush cfg P t True s) = (queue s)(t := [])"
    and "writes (flush cfg P t True s) =
           writes s @ (if queue s t = [] then [] else [(t, map (heap s) (map data (queue s t)))])"
    and "heap (flush cfg P t True s) = heap s"
    and "errorCount (flush cfg P t True s) = errorCount s"
proof -
  have *: "queue (flush cfg P t True s) = (queue s)(t := []) \<and>
     writes (flush cfg P t True s) =
           writes s @ (if queue s t = [] then [] else [(t, map (heap s) (map data (queue s t)))]) \<and>
     heap (flush cfg P t True s) = heap s \<and>
     errorCount (flush cfg P t True s) = errorCount s"
  proof (cases "queue s t = []")
    case True
    then show ?thesis by (auto simp: flush_empty)
  next
    case False
    have ok: "writeRecords P (length (writes s) + 0) t
        (map (heap s) (map data (take (if True then length (queue s t) else batchSize cfg) (queue s t))))
          = None"
      by (rule writeRecords_healthy [OF h])
    have "int 0 < max 1 (envMaxAttempts cfg)" by simp
    from flush_retryable_then_success [OF False _ ok this] False show ?thesis by simp
  qed
  from * show "queue (flush cfg P t True s) = (queue s)(t := [])"
    and "writes (flush cfg P t True s) =
           writes s @ (if queue s t = [] then [] else [(t, map (heap s) (map data (queue s t)))])"
    and "heap (flush cfg P t True s) = heap s"
    and "errorCount (flush cfg P t True s) = errorCount s"
    by simp_all
qed


lemma flushAll_healthy:
  assumes h: "\<forall>n t r. P n t r = None" and d: "distinct ts"
  shows "queue (foldl (\<lambda>s' t. flush cfg P t True s') s ts) =
           (\<lambda>t. if t \<in> set ts then [] else queue s t) \<and>
         writes (foldl (\<lambda>s' t. flush cfg P t True s') s ts) =
           writes s @ map (\<lambda>t. (t, map (heap s) (map data (queue s t))))
                         (filter (\<lambda>t. queue s t \<noteq> []) ts) \<and>
         heap (foldl (\<lambda>s' t. flush cfg P t True s') s ts) = heap s \<and>
         errorCount (foldl (\<lambda>s' t. flush cfg P t True s') s ts) = errorCount s"
  using d
proof (induction ts arbitrary: s)
  case Nil
  show ?case by simp
next
  case (Cons t ts)
  let ?s1 = "flush cfg P t True s"
  have d': "distinct ts" and nt: "t \<notin> set ts" using Cons.prems by simp_all
  note f = flush_full_healthy [OF h, of cfg t s]
  have same: "\<And>u. u \<in> set ts \<Longrightarrow> queue ?s1 u = queue s u"
    using nt by (auto simp: f(1))
  have fl: "filter (\<lambda>u. queue ?s1 u \<noteq> []) ts = filter (\<lambda>u. queue s u \<noteq> []) ts"
    using same by (intro filter_cong) auto
  have mp: "map (\<lambda>u. (u, map (heap ?s1) (map data (queue ?s1 u)))) (filter (\<lambda>u. queue s u \<noteq> []) ts) =
      map (\<lambda>u. (u, map (heap s) (map data (queue s u)))) (filter (\<lambda>u. queue s u \<noteq> []) ts)"
    using same by (intro map_cong) (auto simp: f(3))
  let ?F = "foldl (\<lambda>s' t. flush cfg P t True s') ?s1 ts"
  from Cons.IH [OF d', of ?s1] have
    q: "queue ?F = (\<lambda>u. if u \<in> set ts then [] else queue ?s1 u)" and
    w: "writes ?F = writes ?s1 @ map (\<lambda>u. (u, map (heap ?s1) (map data (queue ?s1 u))))
                         (filter (\<lambda>u. queue ?s1 u \<noteq> []) ts)" and
    hh: "heap ?F = heap ?s1" and ee: "errorCount ?F = errorCount ?s1"
    by blast+
  have F: "foldl (\<lambda>s' t. flush cfg P t True s') s (t # ts) = ?F" by simp
  have q': "queue ?F = (\<lambda>u. if u \<in> set (t # ts) then [] else queue s u)"
    unfolding q by (auto simp: fun_eq_iff f(1))
  have w': "writes ?F = writes s @ map (\<lambda>u. (u, map (heap s) (map data (queue s u))))
                         (filter (\<lambda>u. queue s u \<noteq> []) (t # ts))"
    unfolding w fl mp f(2) by simp
  show ?case
    unfolding F using q' w' hh ee by (simp add: f(3,4))
qed

lemma flushAll_intervalId:
  "intervalId (foldl (\<lambda>s' t. flush cfg P t full s') s ts) = intervalId s"
  by (induction ts arbitrary: s) (simp_all add: flush_intervalId)

section \<open>Helper facts about payloads and stored rows\<close>


lemma writeLoop_ok:
  "writeRecords P n t rs = None \<Longrightarrow>
   snd (writeLoop P n t rs db) =
     db @ (if t = Traces \<or> t = Scores \<or> t = Observations then map (Pair t) rs else [])"
proof (induction rs arbitrary: db)
  case Nil
  show ?case by simp
next
  case (Cons r rs)
  from Cons.prems have a: "fst (writeRecordToPostgres P n t r []) = None"
    and b: "writeRecords P n t rs = None"
    by (auto split: option.splits)
  have c: "writeRecordToPostgres P n t r db =
      (None, db @ (if t = Traces \<or> t = Scores \<or> t = Observations then [(t, r)] else []))"
    using a by (cases t) (auto split: option.splits)
  show ?case
    by (simp add: c Cons.IH [OF b])
qed



lemma flushCatch_upserted: "upserted (flushCatch cfg t err items s) = upserted s"
proof -
  have f: "\<And>s d s' d'. foldl (requeueOrDrop cfg t) (s, d) items = (s', d') \<Longrightarrow>
      upserted s' = upserted s"
  proof (induction items)
    case Nil
    then show ?case by simp
  next
    case (Cons i items)
    show ?case
    proof (cases "attempts i < maxAttempts cfg")
      case True
      with Cons.prems have
        "foldl (requeueOrDrop cfg t)
           (s\<lparr>queue := (queue s)(t := queue s t @ [i\<lparr>attempts := attempts i + 1\<rparr>])\<rparr>, d) items = (s', d')"
        by (simp add: requeueOrDrop_keep)
      from Cons.IH [OF this] show ?thesis by simp
    next
      case False
      with Cons.prems have
        "foldl (requeueOrDrop cfg t) (s\<lparr>errorCount := errorCount s + 1\<rparr>, d + 1) items = (s', d')"
        by (simp add: requeueOrDrop_drop)
      from Cons.IH [OF this] show ?thesis by simp
    qed
  qed
  obtain s' d' where g:
    "foldl (requeueOrDrop cfg t) (addLog (ErrorFlush t err) s, 0) items = (s', d')"
    by (cases "foldl (requeueOrDrop cfg t) (addLog (ErrorFlush t err) s, 0) items")
  from f [OF g] show ?thesis by (simp add: flushCatch_def g)
qed

lemma cycleStart_upserted: "upserted (world (cycleStart cfg t full s)) = upserted s"
  by (simp add: cycleStart_def Let_def)


lemma flush_full_healthy_upserted:
  assumes h: "\<forall>n t r. P n t r = None"
  shows "upserted (flush cfg P t True s) =
     upserted s @
     (if t = Traces \<or> t = Scores \<or> t = Observations
      then map (\<lambda>i. (t, heap s (data i))) (queue s t) else [])"
proof (cases "queue s t = []")
  case True
  then show ?thesis by (simp add: flush_empty)
next
  case False
  let ?c0 = "cycleStart cfg t True s"
  have ok: "writeRecords P (length (writes (world ?c0))) t
      (map (heap (world ?c0)) (recordsToWrite ?c0)) = None"
    by (rule writeRecords_healthy [OF h])
  have r: "request P t ?c0 = (None, snd (request P t ?c0))"
    using request_eq [of P t ?c0] ok by simp
  have b: "backOff (request P t) (retry t) (envMaxAttempts cfg) ?c0 = (None, snd (request P t ?c0))"
    unfolding backOff_start
    by (rule backOff_execute_success [where req = "request P t" and rty = "retry t", OF _ r]) simp
  have fl: "flush cfg P t True s = world (snd (request P t ?c0))"
    using False by (simp add: flush_nonempty b)
  show ?thesis
    unfolding fl
    by (simp add: writeLoop_ok [OF ok] cycleStart_upserted)
       (simp add: cycleStart_simps comp_def)
qed

lemma flushAll_healthy_upserted:
  assumes h: "\<forall>n t r. P n t r = None" and d: "distinct ts"
  shows "upserted (foldl (\<lambda>s' t. flush cfg P t True s') s ts) =
     upserted s @
     concat (map (\<lambda>t. if t = Traces \<or> t = Scores \<or> t = Observations
                       then map (\<lambda>i. (t, heap s (data i))) (queue s t) else []) ts)"
  using d
proof (induction ts arbitrary: s)
  case Nil
  show ?case by simp
next
  case (Cons t ts)
  let ?s1 = "flush cfg P t True s"
  have d': "distinct ts" and nt: "t \<notin> set ts" using Cons.prems by simp_all
  note f = flush_full_healthy [OF h, of cfg t s]
  have same: "\<And>u. u \<in> set ts \<Longrightarrow> queue ?s1 u = queue s u"
    using nt by (auto simp: f(1))
  have mp: "map (\<lambda>u. if u = Traces \<or> u = Scores \<or> u = Observations
                       then map (\<lambda>i. (u, heap ?s1 (data i))) (queue ?s1 u) else []) ts =
      map (\<lambda>u. if u = Traces \<or> u = Scores \<or> u = Observations
                       then map (\<lambda>i. (u, heap s (data i))) (queue s u) else []) ts"
    using same by (intro map_cong) (auto simp: f(3))
  show ?case
    using Cons.IH [OF d', of ?s1]
    by (simp add: mp flush_full_healthy_upserted [OF h])
qed

lemma retry_heap:
  assumes rw: "recordsToWrite c = map data (queueItems c)"
  shows "heap (world (snd (retry t e k c))) a = heap (world c) a \<or>
     (a \<in> data ` set (queueItems c) \<and>
      heap (world (snd (retry t e k c))) a = truncated (heap (world c) a))"
  by (cases rule: retry_cases [where e = e and c = c])
     (auto simp: retry_retryable retry_split retry_single retry_size retry_fatal rw)

lemma payload_inv_request:
  assumes I: "payload_inv t batch s0 c" and r: "request P t c = (r, c1)"
  shows "payload_inv t batch s0 c1"
proof -
  have c1: "c1 = snd (request P t c)" using r by simp
  from I have ci: "cycle_inv t batch s0 c"
    and hp: "\<forall>a. heap (world c) a = heap s0 a \<or>
           (a \<in> data ` set batch \<and> heap (world c) a = truncated (heap s0 a))"
    by (simp_all add: payload_inv_def)
  from I obtain ws where ws: "writes (world c) = writes s0 @ ws"
    "\<forall>w \<in> set ws. fst w = t \<and>
       (\<forall>x \<in> set (snd w). \<exists>a \<in> data ` set batch. x = heap s0 a \<or> x = truncated (heap s0 a))"
    by (auto simp: payload_inv_def)
  from ci obtain front where fr: "queueItems c @ front = batch"
    and rw: "recordsToWrite c = map data (queueItems c)"
    by (auto simp: cycle_inv_def)
  have sub: "data ` set (queueItems c) \<subseteq> data ` set batch"
    using fr by auto
  have new: "\<forall>x \<in> set (map (heap (world c)) (recordsToWrite c)).
      \<exists>a \<in> data ` set batch. x = heap s0 a \<or> x = truncated (heap s0 a)"
  proof
    fix x assume "x \<in> set (map (heap (world c)) (recordsToWrite c))"
    then obtain a where a: "a \<in> data ` set (queueItems c)" "x = heap (world c) a"
      by (auto simp: rw)
    with sub have ab: "a \<in> data ` set batch" by blast
    from hp a(2) have "x = heap s0 a \<or> x = truncated (heap s0 a)" by metis
    with ab show "\<exists>a \<in> data ` set batch. x = heap s0 a \<or> x = truncated (heap s0 a)" by blast
  qed
  have w1: "writes (world c1) = writes s0 @ (ws @ [(t, map (heap (world c)) (recordsToWrite c))])"
    by (simp add: c1 ws(1))
  have w2: "\<forall>w \<in> set (ws @ [(t, map (heap (world c)) (recordsToWrite c))]). fst w = t \<and>
       (\<forall>x \<in> set (snd w). \<exists>a \<in> data ` set batch. x = heap s0 a \<or> x = truncated (heap s0 a))"
    using ws(2) new by auto
  have h1: "heap (world c1) = heap (world c)" by (simp add: c1)
  show ?thesis
    unfolding payload_inv_def
    using cycle_inv_request [OF ci r] hp w1 w2 by (auto simp only: h1)
qed

lemma payload_inv_retry:
  assumes I: "payload_inv t batch s0 c" and r: "retry t e k c = (r, c1)"
  shows "payload_inv t batch s0 c1"
proof -
  have c1: "c1 = snd (retry t e k c)" using r by simp
  from I have ci: "cycle_inv t batch s0 c"
    and hp: "\<forall>a. heap (world c) a = heap s0 a \<or>
           (a \<in> data ` set batch \<and> heap (world c) a = truncated (heap s0 a))"
    by (simp_all add: payload_inv_def)
  from I obtain ws where ws: "writes (world c) = writes s0 @ ws"
    "\<forall>w \<in> set ws. fst w = t \<and>
       (\<forall>x \<in> set (snd w). \<exists>a \<in> data ` set batch. x = heap s0 a \<or> x = truncated (heap s0 a))"
    by (auto simp: payload_inv_def)
  from ci obtain front where fr: "queueItems c @ front = batch"
    and rw: "recordsToWrite c = map data (queueItems c)"
    by (auto simp: cycle_inv_def)
  have sub: "data ` set (queueItems c) \<subseteq> data ` set batch"
    using fr by auto
  have hp1: "\<forall>a. heap (world c1) a = heap s0 a \<or>
           (a \<in> data ` set batch \<and> heap (world c1) a = truncated (heap s0 a))"
  proof
    fix a
    from retry_heap [OF rw, of t e k a] consider
      "heap (world c1) a = heap (world c) a"
      | "a \<in> data ` set (queueItems c)" "heap (world c1) a = truncated (heap (world c) a)"
      unfolding c1 by blast
    then show "heap (world c1) a = heap s0 a \<or>
           (a \<in> data ` set batch \<and> heap (world c1) a = truncated (heap s0 a))"
    proof cases
      case 1
      with hp show ?thesis by metis
    next
      case 2
      then have ab: "a \<in> data ` set batch" using sub by blast
      from hp have "heap (world c) a = heap s0 a \<or> heap (world c) a = truncated (heap s0 a)"
        by metis
      then have "heap (world c1) a = truncated (heap s0 a)"
        using 2(2) by (auto simp: truncated_idem)
      with ab show ?thesis by simp
    qed
  qed
  have w1: "writes (world c1) = writes s0 @ ws"
    by (simp add: c1 retry_writes ws(1))
  show ?thesis
    unfolding payload_inv_def
    using cycle_inv_retry [OF ci r] hp1 w1 ws(2) by blast
qed

lemma payload_inv_start:
  "payload_inv t (queueItems (cycleStart cfg t full s)) (world (cycleStart cfg t full s))
     (cycleStart cfg t full s)"
  by (simp add: payload_inv_def cycle_inv_start)

lemma payload_inv_backOff:
  "payload_inv t batch s0 c \<Longrightarrow>
   payload_inv t batch s0 (snd (backOff (request P t) (retry t) N c))"
  unfolding backOff_def
  by (rule backOff_execute_invariant [where I = "payload_inv t batch s0"])
     (auto intro: payload_inv_request payload_inv_retry)

text \<open>
  One call of \<open>flush\<close>: what it does to the records, what it submits, and which items
  the queue of its table holds afterwards.
\<close>

lemma flush_payload:
  "(\<forall>a. heap (flush cfg P t full s) a = heap s a \<or>
        (a \<in> data ` set (take (if full then length (queue s t) else batchSize cfg) (queue s t)) \<and>
         heap (flush cfg P t full s) a = truncated (heap s a))) \<and>
   (\<exists>ws. writes (flush cfg P t full s) = writes s @ ws \<and>
      (\<forall>w \<in> set ws. fst w = t \<and>
         (\<forall>x \<in> set (snd w).
            \<exists>a \<in> data ` set (take (if full then length (queue s t) else batchSize cfg) (queue s t)).
              x = heap s a \<or> x = truncated (heap s a)))) \<and>
   (\<forall>i \<in> set (queue (flush cfg P t full s) t).
      i \<in> set (queue s t) \<or>
      (\<exists>j \<in> set (take (if full then length (queue s t) else batchSize cfg) (queue s t)).
         i = j\<lparr>attempts := attempts j + 1\<rparr>))"
proof (cases "queue s t = []")
  case True
  then show ?thesis by (simp add: flush_empty)
next
  case False
  define n where "n = (if full then length (queue s t) else batchSize cfg)"
  let ?c0 = "cycleStart cfg t full s"
  let ?b = "backOff (request P t) (retry t) (envMaxAttempts cfg) ?c0"
  let ?s' = "flush cfg P t full s"
  have "payload_inv t (queueItems ?c0) (world ?c0) (snd ?b)"
    by (rule payload_inv_backOff [OF payload_inv_start])
  then have inv: "payload_inv t (take n (queue s t)) (world ?c0) (snd ?b)"
    by (simp add: cycleStart_simps n_def)
  have cs: "queue (world ?c0) t = drop n (queue s t)" "heap (world ?c0) = heap s"
    "writes (world ?c0) = writes s"
    by (simp_all add: cycleStart_simps n_def)
  from inv have hp: "\<forall>a. heap (world (snd ?b)) a = heap s a \<or>
        (a \<in> data ` set (take n (queue s t)) \<and> heap (world (snd ?b)) a = truncated (heap s a))"
    by (simp add: payload_inv_def cs)
  from inv obtain ws where ws: "writes (world (snd ?b)) = writes s @ ws"
    "\<forall>w \<in> set ws. fst w = t \<and>
       (\<forall>x \<in> set (snd w). \<exists>a \<in> data ` set (take n (queue s t)).
          x = heap s a \<or> x = truncated (heap s a))"
    by (auto simp: payload_inv_def cs)
  from inv obtain front where fr: "queueItems (snd ?b) @ front = take n (queue s t)"
      "queue (world (snd ?b)) t = front @ drop n (queue s t)"
    by (auto simp: payload_inv_def cycle_inv_def cs)
  have fl: "?s' = (case fst ?b of None \<Rightarrow> world (snd ?b)
                | Some err \<Rightarrow> flushCatch cfg t err (queueItems (snd ?b)) (world (snd ?b)))"
    using False by (simp add: flush_nonempty case_prod_beta)
  have h: "heap ?s' = heap (world (snd ?b))" and w: "writes ?s' = writes (world (snd ?b))"
    by (cases "fst ?b"; simp add: fl flushCatch_frame)+
  have sub: "set (queueItems (snd ?b)) \<subseteq> set (take n (queue s t))"
    "set front \<subseteq> set (queue s t)" "set (drop n (queue s t)) \<subseteq> set (queue s t)"
  proof -
    have u: "set (queueItems (snd ?b)) \<union> set front = set (take n (queue s t))"
      using fr(1) by (metis set_append)
    from u show "set (queueItems (snd ?b)) \<subseteq> set (take n (queue s t))" by blast
    from u show "set front \<subseteq> set (queue s t)"
      using set_take_subset [of n "queue s t"] by blast
    show "set (drop n (queue s t)) \<subseteq> set (queue s t)" by (rule set_drop_subset)
  qed
  have q: "\<forall>i \<in> set (queue ?s' t).
      i \<in> set (queue s t) \<or>
      (\<exists>j \<in> set (take n (queue s t)). i = j\<lparr>attempts := attempts j + 1\<rparr>)"
  proof (cases "fst ?b")
    case None
    then have "queue ?s' t = front @ drop n (queue s t)" by (simp add: fl fr(2))
    with sub show ?thesis by auto
  next
    case (Some e)
    then have "queue ?s' t = front @ drop n (queue s t) @
        map (\<lambda>i. i\<lparr>attempts := attempts i + 1\<rparr>)
          (filter (\<lambda>i. attempts i < maxAttempts cfg) (queueItems (snd ?b)))"
      by (simp add: fl fr(2) flushCatch_queue)
    with sub show ?thesis by auto
  qed
  from hp ws q show ?thesis unfolding h w n_def by blast
qed

text \<open>The same for every operation that takes part in the life of an item.\<close>

lemma flush_queue_other: "t' \<noteq> t \<Longrightarrow> queue (flush cfg P t full s) t' = queue s t'"
proof (cases "queue s t = []")
  case True
  then show ?thesis by (simp add: flush_empty)
next
  case False
  assume ne: "t' \<noteq> t"
  let ?c0 = "cycleStart cfg t full s"
  let ?b = "backOff (request P t) (retry t) (envMaxAttempts cfg) ?c0"
  have "cycle_inv t (queueItems ?c0) (world ?c0) (snd ?b)"
    by (rule cycle_inv_backOff [OF cycle_inv_start])
  then have "queue (world (snd ?b)) t' = queue (world ?c0) t'"
    using ne by (simp add: cycle_inv_def)
  then have o: "queue (world (snd ?b)) t' = queue s t'"
    using ne by (simp add: cycleStart_simps)
  show ?thesis
    using False o ne
    by (cases "fst ?b") (simp_all add: flush_nonempty case_prod_beta flushCatch_queue_other)
qed

lemma sameOrRetried_refl: "sameOrRetried q q"
  by (simp add: sameOrRetried_def)

lemma sameOrTruncated_refl: "sameOrTruncated h h"
  by (simp add: sameOrTruncated_def)

lemma sameOrTruncated_trans:
  "sameOrTruncated h h1 \<Longrightarrow> sameOrTruncated h1 h2 \<Longrightarrow> sameOrTruncated h h2"
  unfolding sameOrTruncated_def by (metis truncated_idem)

lemma flush_same:
  "sameOrRetried (queue s t') (queue (flush cfg P t full s) t')"
  "sameOrTruncated (heap s) (heap (flush cfg P t full s))"
proof -
  note fp = flush_payload [of cfg P t full s]
  show "sameOrTruncated (heap s) (heap (flush cfg P t full s))"
    unfolding sameOrTruncated_def using fp by blast
  show "sameOrRetried (queue s t') (queue (flush cfg P t full s) t')"
  proof (cases "t' = t")
    case True
    have "\<forall>i \<in> set (queue (flush cfg P t full s) t).
        i \<in> set (queue s t) \<or> (\<exists>j \<in> set (queue s t). i = j\<lparr>attempts := attempts j + 1\<rparr>)"
      using fp set_take_subset [of "if full then length (queue s t) else batchSize cfg" "queue s t"]
      by blast
    then show ?thesis by (simp add: True sameOrRetried_def)
  next
    case False
    then show ?thesis by (simp add: flush_queue_other sameOrRetried_refl)
  qed
qed

lemma flushAll_same:
  assumes d: "distinct ts"
  shows "(t' \<notin> set ts \<longrightarrow> queue (foldl (\<lambda>s' t. flush cfg P t full s') s ts) t' = queue s t') \<and>
     sameOrRetried (queue s t') (queue (foldl (\<lambda>s' t. flush cfg P t full s') s ts) t') \<and>
     sameOrTruncated (heap s) (heap (foldl (\<lambda>s' t. flush cfg P t full s') s ts))"
  using d
proof (induction ts arbitrary: s)
  case Nil
  show ?case by (simp add: sameOrRetried_refl sameOrTruncated_refl)
next
  case (Cons t ts)
  let ?s1 = "flush cfg P t full s"
  let ?F = "foldl (\<lambda>s' t. flush cfg P t full s') ?s1 ts"
  have d': "distinct ts" and nt: "t \<notin> set ts" using Cons.prems by simp_all
  from Cons.IH [OF d', of ?s1] have
    o: "t' \<notin> set ts \<longrightarrow> queue ?F t' = queue ?s1 t'" and
    q: "sameOrRetried (queue ?s1 t') (queue ?F t')" and
    h: "sameOrTruncated (heap ?s1) (heap ?F)"
    by blast+
  have F: "foldl (\<lambda>s' t. flush cfg P t full s') s (t # ts) = ?F" by simp
  have o': "t' \<notin> set (t # ts) \<longrightarrow> queue ?F t' = queue s t'"
    using o by (auto simp: flush_queue_other)
  have q': "sameOrRetried (queue s t') (queue ?F t')"
  proof (cases "t' = t")
    case True
    with o nt have "queue ?F t' = queue ?s1 t'" by simp
    then show ?thesis using flush_same(1) [of s t' cfg P t full] by simp
  next
    case False
    then have "queue ?s1 t' = queue s t'" by (simp add: flush_queue_other)
    with q show ?thesis by simp
  qed
  have h': "sameOrTruncated (heap s) (heap ?F)"
    by (rule sameOrTruncated_trans [OF flush_same(2) h])
  show ?case unfolding F using o' q' h' by blast
qed

lemma addToQueue_same:
  "sameOrRetried
     (queue s t' @ (if t' = t then [\<lparr>createdAt = now, attempts = 1, data = d\<rparr>] else []))
     (queue (addToQueue cfg P t d now s) t')"
  "sameOrTruncated (heap s) (heap (addToQueue cfg P t d now s))"
proof -
  let ?s1 = "s\<lparr>queue := (queue s)(t := queue s t @ [\<lparr>createdAt = now, attempts = 1, data = d\<rparr>])\<rparr>"
  have q1: "queue ?s1 t' =
      queue s t' @ (if t' = t then [\<lparr>createdAt = now, attempts = 1, data = d\<rparr>] else [])"
    by simp
  have h1: "heap ?s1 = heap s" by simp
  have a: "addToQueue cfg P t d now s = ?s1 \<or> addToQueue cfg P t d now s = flush cfg P t False ?s1"
    by (simp add: addToQueue_def Let_def)
  from a show "sameOrRetried
     (queue s t' @ (if t' = t then [\<lparr>createdAt = now, attempts = 1, data = d\<rparr>] else []))
     (queue (addToQueue cfg P t d now s) t')"
  proof
    assume "addToQueue cfg P t d now s = ?s1"
    then show ?thesis unfolding q1 [symmetric] by (simp only: sameOrRetried_refl)
  next
    assume "addToQueue cfg P t d now s = flush cfg P t False ?s1"
    then show ?thesis
      unfolding q1 [symmetric] using flush_same(1) [of ?s1 t' cfg P t False] by simp
  qed
  from a show "sameOrTruncated (heap s) (heap (addToQueue cfg P t d now s))"
  proof
    assume "addToQueue cfg P t d now s = ?s1"
    then show ?thesis by (simp add: sameOrTruncated_refl)
  next
    assume "addToQueue cfg P t d now s = flush cfg P t False ?s1"
    then show ?thesis using flush_same(2) [of ?s1 cfg P t False] by simp
  qed
qed

lemma shutdown_same:
  "sameOrRetried (queue s t') (queue (shutdown cfg P s) t')"
  "sameOrTruncated (heap s) (heap (shutdown cfg P s))"
  "sameOrRetried (queue s t') (queue (flushAll cfg P full s) t')"
  "sameOrTruncated (heap s) (heap (flushAll cfg P full s))"
proof -
  have dist: "distinct allTables" by (simp add: allTables_def)
  note a = flushAll_same [OF dist, of t' cfg P True "s\<lparr>intervalId := None\<rparr>"]
  note b = flushAll_same [OF dist, of t' cfg P full s]
  from a show "sameOrRetried (queue s t') (queue (shutdown cfg P s) t')"
    by (simp add: shutdown_def flushAll_def)
  from a show "sameOrTruncated (heap s) (heap (shutdown cfg P s))"
    by (simp add: shutdown_def flushAll_def)
  from b show "sameOrRetried (queue s t') (queue (flushAll cfg P full s) t')"
    by (simp add: flushAll_def)
  from b show "sameOrTruncated (heap s) (heap (flushAll cfg P full s))"
    by (simp add: flushAll_def)
qed

section \<open>Claims\<close>

text \<open>
  C1 (amended). An attempt of the loop whose write fails with a string-length error that
  is not also retryable: the \<open>retry\<close> callback asks for a retry. With more than one
  item in flight, the first \<open>n div 2\<close> items stay in flight, in order, and the other
  \<open>n - n div 2\<close> are put at the front of the table's queue; no record is changed. With
  exactly one item there is no split: the item stays in flight, the queue is unchanged,
  and its record is truncated in place. The truncated-this-cycle flag, the writes made so
  far and the drop counter are unchanged. The loop goes on with the retained items only
  when the failed attempt was not the last one that \<open>numOfAttempts\<close> allows; when it
  was the last, the loop ends with the error and the retained items are what the catch
  block of \<open>flush\<close> requeues or drops. A batch of four splits into two retained and two
  at the front of the queue.
\<close>

theorem string_overflow_splits:
  assumes cls: "isStringLengthError e" "\<not> isRetryableError e"
    and req: "request P t c0 = (Some e, c)"
    and lim: "int j < N"
  shows "fst (retry t e (Suc j) c) = Inr True \<and>
     (length (queueItems c) > 1 \<longrightarrow>
        queueItems (snd (retry t e (Suc j) c)) =
          take (length (queueItems c) div 2) (queueItems c) \<and>
        recordsToWrite (snd (retry t e (Suc j) c)) =
          map data (take (length (queueItems c) div 2) (queueItems c)) \<and>
        queue (world (snd (retry t e (Suc j) c))) =
          (queue (world c))
            (t := drop (length (queueItems c) div 2) (queueItems c) @ queue (world c) t) \<and>
        length (queueItems (snd (retry t e (Suc j) c))) = length (queueItems c) div 2 \<and>
        length (drop (length (queueItems c) div 2) (queueItems c)) =
          length (queueItems c) - length (queueItems c) div 2 \<and>
        heap (world (snd (retry t e (Suc j) c))) = heap (world c)) \<and>
     (\<forall>item. queueItems c = [item] \<longrightarrow>
        queueItems (snd (retry t e (Suc j) c)) = [item] \<and>
        recordsToWrite (snd (retry t e (Suc j) c)) = [data item] \<and>
        queue (world (snd (retry t e (Suc j) c))) = queue (world c) \<and>
        heap (world (snd (retry t e (Suc j) c))) =
          snd (truncateOversizedRecord t (data item) (heap (world c)))) \<and>
     hasBeenTruncated (snd (retry t e (Suc j) c)) = hasBeenTruncated c \<and>
     writes (world (snd (retry t e (Suc j) c))) = writes (world c) \<and>
     errorCount (world (snd (retry t e (Suc j) c))) = errorCount (world c) \<and>
     (int (Suc j) < N \<longrightarrow>
        backOff_execute (request P t) (retry t) N j c0 =
          backOff_execute (request P t) (retry t) N (Suc j) (snd (retry t e (Suc j) c))) \<and>
     (\<not> int (Suc j) < N \<longrightarrow>
        backOff_execute (request P t) (retry t) N j c0 = (Some e, snd (retry t e (Suc j) c)))"
proof -
  let ?c' = "snd (retry t e (Suc j) c)"
  have yes: "fst (retry t e (Suc j) c) = Inr True"
    by (cases rule: retry_cases [where e = e and c = c])
       (use cls in \<open>simp_all add: retry_split retry_single\<close>)
  then have y: "retry t e (Suc j) c = (Inr True, ?c')"
    by (metis prod.collapse)
  have split: "length (queueItems c) > 1 \<longrightarrow>
        queueItems ?c' = take (length (queueItems c) div 2) (queueItems c) \<and>
        recordsToWrite ?c' = map data (take (length (queueItems c) div 2) (queueItems c)) \<and>
        queue (world ?c') =
          (queue (world c))
            (t := drop (length (queueItems c) div 2) (queueItems c) @ queue (world c) t) \<and>
        length (queueItems ?c') = length (queueItems c) div 2 \<and>
        length (drop (length (queueItems c) div 2) (queueItems c)) =
          length (queueItems c) - length (queueItems c) div 2 \<and>
        heap (world ?c') = heap (world c)"
  proof
    assume "length (queueItems c) > 1"
    then have "length (queueItems c) \<noteq> 1" by simp
    from retry_split [OF cls(2,1) this, of t "Suc j"] show
       "queueItems ?c' = take (length (queueItems c) div 2) (queueItems c) \<and>
        recordsToWrite ?c' = map data (take (length (queueItems c) div 2) (queueItems c)) \<and>
        queue (world ?c') =
          (queue (world c))
            (t := drop (length (queueItems c) div 2) (queueItems c) @ queue (world c) t) \<and>
        length (queueItems ?c') = length (queueItems c) div 2 \<and>
        length (drop (length (queueItems c) div 2) (queueItems c)) =
          length (queueItems c) - length (queueItems c) div 2 \<and>
        heap (world ?c') = heap (world c)"
      by simp
  qed
  have single: "\<forall>item. queueItems c = [item] \<longrightarrow>
        queueItems ?c' = [item] \<and> recordsToWrite ?c' = [data item] \<and>
        queue (world ?c') = queue (world c) \<and>
        heap (world ?c') = snd (truncateOversizedRecord t (data item) (heap (world c)))"
  proof (intro allI impI)
    fix item assume "queueItems c = [item]"
    from retry_single [OF cls(2,1) this, of t "Suc j"] show
       "queueItems ?c' = [item] \<and> recordsToWrite ?c' = [data item] \<and>
        queue (world ?c') = queue (world c) \<and>
        heap (world ?c') = snd (truncateOversizedRecord t (data item) (heap (world c)))"
      by (simp add: truncateOversizedRecord_eq)
  qed
  have frame: "hasBeenTruncated ?c' = hasBeenTruncated c \<and>
     writes (world ?c') = writes (world c) \<and> errorCount (world ?c') = errorCount (world c)"
    by (cases rule: retry_cases [where e = e and c = c])
       (use cls in \<open>simp_all add: retry_split retry_single\<close>)
  have go: "int (Suc j) < N \<longrightarrow>
        backOff_execute (request P t) (retry t) N j c0 =
          backOff_execute (request P t) (retry t) N (Suc j) ?c'"
    using backOff_execute_again [where req = "request P t" and rty = "retry t", OF lim req y]
    by blast
  have stop: "\<not> int (Suc j) < N \<longrightarrow>
        backOff_execute (request P t) (retry t) N j c0 = (Some e, ?c')"
    using backOff_execute_last [where req = "request P t" and rty = "retry t", OF lim req y]
    by auto
  from yes split single frame go stop show ?thesis by blast
qed

lemma ex_flush_four:
  "queue (flush (exampleConfig 4 2) (always invalidStringLength) Traces False
             (stateWith fourItems)) Traces =
     [mkItem 1 2, mkItem 1 3, mkItem 1 4, mkItem 2 1]"
  by (simp add: flush_def backOff_def backOff_execute.simps request_def writeToClickhouse_def
        retry_def handleStringLengthError_def flushCatch_def requeueOrDrop_def addLog_def
        exampleConfig_def stateWith_def fourItems_def mkItem_def newWriter_def always_def
        exampleStore_def ex_classes Let_def)

theorem string_overflow_splits_witness:
  "isStringLengthError invalidStringLength \<and> \<not> isRetryableError invalidStringLength \<and>
   request (always invalidStringLength) Traces cycle4 =
     (Some invalidStringLength, snd (request (always invalidStringLength) Traces cycle4)) \<and>
   queueItems (snd (request (always invalidStringLength) Traces cycle4)) = fourItems \<and>
   queueItems (snd (retry Traces invalidStringLength 1
      (snd (request (always invalidStringLength) Traces cycle4)))) = [mkItem 1 1, mkItem 1 2] \<and>
   queue (world (snd (retry Traces invalidStringLength 1
      (snd (request (always invalidStringLength) Traces cycle4))))) Traces =
     [mkItem 1 3, mkItem 1 4] \<and>
   backOff_execute (request (always invalidStringLength) Traces) (retry Traces) 2 0 cycle4 =
     backOff_execute (request (always invalidStringLength) Traces) (retry Traces) 2 1
       (snd (retry Traces invalidStringLength 1
          (snd (request (always invalidStringLength) Traces cycle4)))) \<and>
   queueItems (snd (request (always invalidStringLength) Traces cycle1)) = [mkItem 1 7] \<and>
   queueItems (snd (retry Traces invalidStringLength 1
      (snd (request (always invalidStringLength) Traces cycle1)))) = [mkItem 1 7] \<and>
   input (heap (world (snd (retry Traces invalidStringLength 1
      (snd (request (always invalidStringLength) Traces cycle1))))) 7) =
     Val (replicate 512000 CHR ''x'' @ truncationMessage) \<and>
   queue (flush (exampleConfig 4 2) (always invalidStringLength) Traces False
             (stateWith fourItems)) Traces =
     [mkItem 1 2, mkItem 1 3, mkItem 1 4, mkItem 2 1]"
proof -
  let ?P = "always invalidStringLength"
  have q4: "queueItems cycle4 = fourItems" "recordsToWrite cycle4 = map data fourItems"
    "queue (world cycle4) Traces = []" "writes (world cycle4) = []"
    by (simp_all add: cycle4_def cycleStart_simps stateWith_def exampleConfig_def fourItems_def
          newWriter_def)
  have q1: "queueItems cycle1 = [mkItem 1 7]" "recordsToWrite cycle1 = [7]"
    "heap (world cycle1) = exampleStore" "writes (world cycle1) = []"
    by (simp_all add: cycle1_def cycleStart_simps stateWith_def exampleConfig_def mkItem_def
          newWriter_def)
  have r4: "request ?P Traces cycle4 = (Some invalidStringLength, snd (request ?P Traces cycle4))"
    using request_eq [of ?P Traces cycle4]
    by (simp add: q4 fourItems_def always_def)
  have r1: "request ?P Traces cycle1 = (Some invalidStringLength, snd (request ?P Traces cycle1))"
    using request_eq [of ?P Traces cycle1]
    by (simp add: q1 always_def)
  have big: "snd (truncateOversizedRecord Traces 7 exampleStore) 7 = truncated bigRecord"
    by (simp add: truncateOversizedRecord_eq exampleStore_def)
  have inp: "input (truncated bigRecord) = Val (replicate 512000 CHR ''x'' @ truncationMessage)"
    by (simp add: truncated_def bigRecord_def oversized_def truncateField_def maxFieldSize_def)
  note a = string_overflow_splits [OF ex_classes(3) ex_classes(2) r4, of 0 2]
  note b = string_overflow_splits [OF ex_classes(3) ex_classes(2) r1, of 0 2]
  show ?thesis
    using a b r4 r1 ex_classes(2,3) ex_flush_four
    by (simp add: q4 q1 big inp fourItems_def mkItem_def)
qed

text \<open>
  C1 as stated fails when no attempt is left. With \<open>numOfAttempts = 1\<close> and four items
  whose write fails with the string-length error, the batch is split, items 3 and 4 go
  to the front of the queue, and the loop ends: the batch of four is the only write,
  the retained items 1 and 2 are never written again in this cycle and, their attempts
  not being below \<open>maxAttempts = 1\<close>, they are dropped.
\<close>

theorem string_overflow_last_attempt_counterexample:
  "isStringLengthError invalidStringLength \<and>
   queue (stateWith fourItems) Traces = [mkItem 1 1, mkItem 1 2, mkItem 1 3, mkItem 1 4] \<and>
   envMaxAttempts (exampleConfig 4 1) = 1 \<and>
   writes (flush (exampleConfig 4 1) (always invalidStringLength) Traces False
             (stateWith fourItems)) =
     [(Traces, [smallRecord, smallRecord, smallRecord, smallRecord])] \<and>
   queue (flush (exampleConfig 4 1) (always invalidStringLength) Traces False
             (stateWith fourItems)) Traces = [mkItem 1 3, mkItem 1 4] \<and>
   errorCount (flush (exampleConfig 4 1) (always invalidStringLength) Traces False
             (stateWith fourItems)) = 2"
  by (simp add: flush_def backOff_def backOff_execute.simps request_def writeToClickhouse_def
        retry_def handleStringLengthError_def flushCatch_def requeueOrDrop_def addLog_def
        exampleConfig_def stateWith_def fourItems_def mkItem_def newWriter_def always_def
        exampleStore_def ex_classes Let_def)

text \<open>
  C2 (amended). An attempt whose write fails with a size error that is neither retryable
  nor a string-length error. When the cycle has not truncated yet, the \<open>retry\<close>
  callback truncates every record in flight in place, sets \<open>hasBeenTruncated\<close>, keeps
  the batch and the queue, and asks for a retry. The loop then goes on only when the
  failed attempt was not the last one that \<open>numOfAttempts\<close> allows; when it was the
  last, the loop ends with the error after the truncation. When \<open>hasBeenTruncated\<close> is
  already set, the loop ends at that attempt with the error and nothing is truncated.
  Whatever the backing store answers, one call of \<open>flush\<close> takes the size-error branch
  at most once and makes at most \<open>numOfAttempts\<close> writes (at least 1), so it cannot
  retry forever.
\<close>

theorem size_truncation_once:
  "(isSizeError e \<and> \<not> isRetryableError e \<and> \<not> isStringLengthError e \<and>
    request P t c0 = (Some e, c) \<and> int j < N \<longrightarrow>
      (\<not> hasBeenTruncated c \<longrightarrow>
         fst (retry t e (Suc j) c) = Inr True \<and>
         hasBeenTruncated (snd (retry t e (Suc j) c)) \<and>
         queueItems (snd (retry t e (Suc j) c)) = queueItems c \<and>
         recordsToWrite (snd (retry t e (Suc j) c)) = recordsToWrite c \<and>
         queue (world (snd (retry t e (Suc j) c))) = queue (world c) \<and>
         (\<forall>a \<in> set (recordsToWrite c).
            heap (world (snd (retry t e (Suc j) c))) a =
              snd (truncateOversizedRecord t a (heap (world c))) a) \<and>
         (\<forall>a. a \<notin> set (recordsToWrite c) \<longrightarrow>
            heap (world (snd (retry t e (Suc j) c))) a = heap (world c) a) \<and>
         (int (Suc j) < N \<longrightarrow>
            backOff_execute (request P t) (retry t) N j c0 =
              backOff_execute (request P t) (retry t) N (Suc j) (snd (retry t e (Suc j) c))) \<and>
         (\<not> int (Suc j) < N \<longrightarrow>
            backOff_execute (request P t) (retry t) N j c0 =
              (Some e, snd (retry t e (Suc j) c)))) \<and>
      (hasBeenTruncated c \<longrightarrow>
         backOff_execute (request P t) (retry t) N j c0 =
           (Some e, c\<lparr>world := addLog ErrorNonRetryable (world c)\<rparr>))) \<and>
   sizeTruncations (logs (flush cfg Q t' full s)) \<le> sizeTruncations (logs s) + 1 \<and>
   length (writes (flush cfg Q t' full s)) \<le>
     length (writes s) + nat (max 1 (envMaxAttempts cfg))"
proof -
  have step: "isSizeError e \<and> \<not> isRetryableError e \<and> \<not> isStringLengthError e \<and>
    request P t c0 = (Some e, c) \<and> int j < N \<longrightarrow>
      (\<not> hasBeenTruncated c \<longrightarrow>
         fst (retry t e (Suc j) c) = Inr True \<and>
         hasBeenTruncated (snd (retry t e (Suc j) c)) \<and>
         queueItems (snd (retry t e (Suc j) c)) = queueItems c \<and>
         recordsToWrite (snd (retry t e (Suc j) c)) = recordsToWrite c \<and>
         queue (world (snd (retry t e (Suc j) c))) = queue (world c) \<and>
         (\<forall>a \<in> set (recordsToWrite c).
            heap (world (snd (retry t e (Suc j) c))) a =
              snd (truncateOversizedRecord t a (heap (world c))) a) \<and>
         (\<forall>a. a \<notin> set (recordsToWrite c) \<longrightarrow>
            heap (world (snd (retry t e (Suc j) c))) a = heap (world c) a) \<and>
         (int (Suc j) < N \<longrightarrow>
            backOff_execute (request P t) (retry t) N j c0 =
              backOff_execute (request P t) (retry t) N (Suc j) (snd (retry t e (Suc j) c))) \<and>
         (\<not> int (Suc j) < N \<longrightarrow>
            backOff_execute (request P t) (retry t) N j c0 =
              (Some e, snd (retry t e (Suc j) c)))) \<and>
      (hasBeenTruncated c \<longrightarrow>
         backOff_execute (request P t) (retry t) N j c0 =
           (Some e, c\<lparr>world := addLog ErrorNonRetryable (world c)\<rparr>))"
  proof (intro impI, elim conjE)
    assume cls: "isSizeError e" "\<not> isRetryableError e" "\<not> isStringLengthError e"
      and req: "request P t c0 = (Some e, c)" and lim: "int j < N"
    have first: "\<not> hasBeenTruncated c \<longrightarrow>
         fst (retry t e (Suc j) c) = Inr True \<and>
         hasBeenTruncated (snd (retry t e (Suc j) c)) \<and>
         queueItems (snd (retry t e (Suc j) c)) = queueItems c \<and>
         recordsToWrite (snd (retry t e (Suc j) c)) = recordsToWrite c \<and>
         queue (world (snd (retry t e (Suc j) c))) = queue (world c) \<and>
         (\<forall>a \<in> set (recordsToWrite c).
            heap (world (snd (retry t e (Suc j) c))) a =
              snd (truncateOversizedRecord t a (heap (world c))) a) \<and>
         (\<forall>a. a \<notin> set (recordsToWrite c) \<longrightarrow>
            heap (world (snd (retry t e (Suc j) c))) a = heap (world c) a) \<and>
         (int (Suc j) < N \<longrightarrow>
            backOff_execute (request P t) (retry t) N j c0 =
              backOff_execute (request P t) (retry t) N (Suc j) (snd (retry t e (Suc j) c))) \<and>
         (\<not> int (Suc j) < N \<longrightarrow>
            backOff_execute (request P t) (retry t) N j c0 =
              (Some e, snd (retry t e (Suc j) c)))"
    proof
      assume nt: "\<not> hasBeenTruncated c"
      note r = retry_size [OF cls(2,3,1) nt, of t "Suc j"]
      have y: "retry t e (Suc j) c = (Inr True, snd (retry t e (Suc j) c))"
        by (simp add: r)
      have go: "int (Suc j) < N \<longrightarrow>
            backOff_execute (request P t) (retry t) N j c0 =
              backOff_execute (request P t) (retry t) N (Suc j) (snd (retry t e (Suc j) c))"
        using backOff_execute_again [where req = "request P t" and rty = "retry t", OF lim req y]
        by blast
      have stop: "\<not> int (Suc j) < N \<longrightarrow>
            backOff_execute (request P t) (retry t) N j c0 =
              (Some e, snd (retry t e (Suc j) c))"
        using backOff_execute_last [where req = "request P t" and rty = "retry t", OF lim req y]
        by auto
      show "fst (retry t e (Suc j) c) = Inr True \<and>
         hasBeenTruncated (snd (retry t e (Suc j) c)) \<and>
         queueItems (snd (retry t e (Suc j) c)) = queueItems c \<and>
         recordsToWrite (snd (retry t e (Suc j) c)) = recordsToWrite c \<and>
         queue (world (snd (retry t e (Suc j) c))) = queue (world c) \<and>
         (\<forall>a \<in> set (recordsToWrite c).
            heap (world (snd (retry t e (Suc j) c))) a =
              snd (truncateOversizedRecord t a (heap (world c))) a) \<and>
         (\<forall>a. a \<notin> set (recordsToWrite c) \<longrightarrow>
            heap (world (snd (retry t e (Suc j) c))) a = heap (world c) a) \<and>
         (int (Suc j) < N \<longrightarrow>
            backOff_execute (request P t) (retry t) N j c0 =
              backOff_execute (request P t) (retry t) N (Suc j) (snd (retry t e (Suc j) c))) \<and>
         (\<not> int (Suc j) < N \<longrightarrow>
            backOff_execute (request P t) (retry t) N j c0 =
              (Some e, snd (retry t e (Suc j) c)))"
        using go stop by (simp add: r truncateOversizedRecord_eq)
    qed
    have second: "hasBeenTruncated c \<longrightarrow>
         backOff_execute (request P t) (retry t) N j c0 =
           (Some e, c\<lparr>world := addLog ErrorNonRetryable (world c)\<rparr>)"
    proof
      assume tr: "hasBeenTruncated c"
      have obj: "e \<noteq> JsNull" "e \<noteq> JsUndefined"
        using cls(1) by (auto simp: isSizeError_def)
      have y: "retry t e (Suc j) c = (Inr False, c\<lparr>world := addLog ErrorNonRetryable (world c)\<rparr>)"
        using retry_fatal [OF cls(2,3), of c t "Suc j"] tr obj by simp
      show "backOff_execute (request P t) (retry t) N j c0 =
           (Some e, c\<lparr>world := addLog ErrorNonRetryable (world c)\<rparr>)"
        by (rule backOff_execute_last [where req = "request P t" and rty = "retry t", OF lim req y])
           simp
    qed
    from first second show
     "(\<not> hasBeenTruncated c \<longrightarrow>
         fst (retry t e (Suc j) c) = Inr True \<and>
         hasBeenTruncated (snd (retry t e (Suc j) c)) \<and>
         queueItems (snd (retry t e (Suc j) c)) = queueItems c \<and>
         recordsToWrite (snd (retry t e (Suc j) c)) = recordsToWrite c \<and>
         queue (world (snd (retry t e (Suc j) c))) = queue (world c) \<and>
         (\<forall>a \<in> set (recordsToWrite c).
            heap (world (snd (retry t e (Suc j) c))) a =
              snd (truncateOversizedRecord t a (heap (world c))) a) \<and>
         (\<forall>a. a \<notin> set (recordsToWrite c) \<longrightarrow>
            heap (world (snd (retry t e (Suc j) c))) a = heap (world c) a) \<and>
         (int (Suc j) < N \<longrightarrow>
            backOff_execute (request P t) (retry t) N j c0 =
              backOff_execute (request P t) (retry t) N (Suc j) (snd (retry t e (Suc j) c))) \<and>
         (\<not> int (Suc j) < N \<longrightarrow>
            backOff_execute (request P t) (retry t) N j c0 =
              (Some e, snd (retry t e (Suc j) c)))) \<and>
      (hasBeenTruncated c \<longrightarrow>
         backOff_execute (request P t) (retry t) N j c0 =
           (Some e, c\<lparr>world := addLog ErrorNonRetryable (world c)\<rparr>))"
      by (rule conjI)
  qed
  from step flush_sizeTruncations [of cfg Q t' full s] flush_writes_bound [of cfg Q t' full s]
  show ?thesis by (intro conjI)
qed


lemma ex_flush_size:
  "sizeTruncations (logs (flush (exampleConfig 4 3) (always tooLarge) Traces False
      (stateWith [mkItem 1 7]))) = 1 \<and>
   length (writes (flush (exampleConfig 4 3) (always tooLarge) Traces False
      (stateWith [mkItem 1 7]))) = 2"
  by (simp add: flush_def backOff_def backOff_execute.simps request_def writeToClickhouse_def
        retry_size retry_fatal ex_objects flushCatch_def requeueOrDrop_def addLog_def
        exampleConfig_def stateWith_def mkItem_def newWriter_def always_def
        exampleStore_def ex_classes Let_def)

theorem size_truncation_once_witness:
  "isSizeError tooLarge \<and> \<not> isRetryableError tooLarge \<and> \<not> isStringLengthError tooLarge \<and>
   request (always tooLarge) Traces cycle1 = (Some tooLarge, cycle1a) \<and>
   hasBeenTruncated cycle1a = False \<and>
   hasBeenTruncated cycle1b \<and>
   recordsToWrite cycle1b = [7] \<and>
   queueItems cycle1b = [mkItem 1 7] \<and>
   input (heap (world cycle1b) 7) = Val (replicate 512000 CHR ''x'' @ truncationMessage) \<and>
   backOff_execute (request (always tooLarge) Traces) (retry Traces) 3 0 cycle1 =
     backOff_execute (request (always tooLarge) Traces) (retry Traces) 3 1 cycle1b \<and>
   request (always tooLarge) Traces cycle1b = (Some tooLarge, cycle1c) \<and>
   backOff_execute (request (always tooLarge) Traces) (retry Traces) 3 1 cycle1b =
     (Some tooLarge, cycle1c\<lparr>world := addLog ErrorNonRetryable (world cycle1c)\<rparr>) \<and>
   heap (world cycle1c) = heap (world cycle1b) \<and>
   sizeTruncations (logs (flush (exampleConfig 4 3) (always tooLarge) Traces False
      (stateWith [mkItem 1 7]))) = 1 \<and>
   length (writes (flush (exampleConfig 4 3) (always tooLarge) Traces False
      (stateWith [mkItem 1 7]))) = 2"
proof -
  let ?P = "always tooLarge"
  have ra: "request ?P Traces cycle1 = (Some tooLarge, cycle1a)"
    using request_eq [of ?P Traces cycle1]
    by (simp add: ex_cycle1 always_def cycle1a_def)
  have a: "hasBeenTruncated cycle1a = False" "recordsToWrite cycle1a = [7]"
    "queueItems cycle1a = [mkItem 1 7]" "heap (world cycle1a) = exampleStore"
    by (simp_all add: cycle1a_def ex_cycle1)
  note A = size_truncation_once [where e = tooLarge and P = ?P and t = Traces and ?c0.0 = cycle1
      and c = cycle1a and j = 0 and N = 3 and cfg = "exampleConfig 4 3" and Q = ?P
      and t' = Traces and full = False and s = "stateWith [mkItem 1 7]"]
  have b: "hasBeenTruncated cycle1b" "recordsToWrite cycle1b = [7]"
    "queueItems cycle1b = [mkItem 1 7]"
    "heap (world cycle1b) 7 = snd (truncateOversizedRecord Traces 7 exampleStore) 7"
    "backOff_execute (request ?P Traces) (retry Traces) 3 0 cycle1 =
       backOff_execute (request ?P Traces) (retry Traces) 3 1 cycle1b"
    using A ra ex_classes(4,5,6) by (simp_all add: a cycle1b_def)
  have rb: "request ?P Traces cycle1b = (Some tooLarge, cycle1c)"
    using request_eq [of ?P Traces cycle1b]
    by (simp add: b always_def cycle1c_def)
  have c: "hasBeenTruncated cycle1c" "heap (world cycle1c) = heap (world cycle1b)"
    by (simp_all add: cycle1c_def b)
  note B = size_truncation_once [where e = tooLarge and P = ?P and t = Traces and ?c0.0 = cycle1b
      and c = cycle1c and j = 1 and N = 3]
  have stop: "backOff_execute (request ?P Traces) (retry Traces) 3 1 cycle1b =
     (Some tooLarge, cycle1c\<lparr>world := addLog ErrorNonRetryable (world cycle1c)\<rparr>)"
    using B rb c(1) ex_classes(4,5,6) by simp
  have inp: "input (heap (world cycle1b) 7) = Val (replicate 512000 CHR ''x'' @ truncationMessage)"
    by (simp add: b truncateOversizedRecord_eq exampleStore_def ex_truncated_big)
  show ?thesis
    using ex_classes(4,5,6) ra a(1) b(1,2,3,5) inp rb stop c(2) ex_flush_size
    by simp
qed

text \<open>
  C2 as stated fails when no attempt is left. With \<open>numOfAttempts = 1\<close> and one item
  whose write fails with the size error, the record is truncated and the loop ends: the
  write of the untruncated record is the only write, the truncated record is never
  submitted in this cycle, and the item, its attempts not being below
  \<open>maxAttempts = 1\<close>, is dropped.
\<close>

theorem size_error_last_attempt_counterexample:
  "isSizeError tooLarge \<and>
   queue (stateWith [mkItem 1 7]) Traces = [mkItem 1 7] \<and>
   envMaxAttempts (exampleConfig 4 1) = 1 \<and>
   writes (flush (exampleConfig 4 1) (always tooLarge) Traces False (stateWith [mkItem 1 7])) =
     [(Traces, [bigRecord])] \<and>
   heap (flush (exampleConfig 4 1) (always tooLarge) Traces False (stateWith [mkItem 1 7])) 7 =
     truncated bigRecord \<and>
   sizeTruncations (logs (flush (exampleConfig 4 1) (always tooLarge) Traces False
      (stateWith [mkItem 1 7]))) = 1 \<and>
   queue (flush (exampleConfig 4 1) (always tooLarge) Traces False (stateWith [mkItem 1 7]))
     Traces = [] \<and>
   errorCount (flush (exampleConfig 4 1) (always tooLarge) Traces False
      (stateWith [mkItem 1 7])) = 1"
  by (simp add: flush_def backOff_def backOff_execute.simps request_def writeToClickhouse_def
        retry_size retry_fatal ex_objects flushCatch_def requeueOrDrop_def addLog_def
        exampleConfig_def stateWith_def mkItem_def newWriter_def always_def
        exampleStore_def ex_classes Let_def)





text \<open>
  The effect of \<open>truncateOversizedRecord\<close>. It returns the reference it was given and
  changes no other record. An input or output whose length is at most the threshold keeps
  its value; a longer one becomes its first \<open>500 * 1024\<close> code units followed by the
  truncation message. The metadata object is rebuilt entry by entry with the same rule
  for each value, except that an entry under the key \<open>__proto__\<close> is not stored.
  Afterwards every such field has length at most the threshold, every input or output
  that was too long contains the message, and a second application changes nothing.
\<close>

lemma truncateOversizedRecord_effect:
  "fst (truncateOversizedRecord t r h) = r \<and>
   (let h' = snd (truncateOversizedRecord t r h) in
      (\<forall>a. a \<noteq> r \<longrightarrow> h' a = h a) \<and>
      record_id (h' r) = record_id (h r) \<and> project_id (h' r) = project_id (h r) \<and>
      (\<forall>s. input (h r) = Val s \<longrightarrow>
            input (h' r) = Val (if length s \<le> maxFieldSize then s
                                else take (500 * 1024) s @ truncationMessage)) \<and>
      (input (h r) = Missing \<or> input (h r) = Null \<longrightarrow> input (h' r) = input (h r)) \<and>
      (\<forall>s. output' (h r) = Val s \<longrightarrow>
            output' (h' r) = Val (if length s \<le> maxFieldSize then s
                                  else take (500 * 1024) s @ truncationMessage)) \<and>
      (output' (h r) = Missing \<or> output' (h r) = Null \<longrightarrow> output' (h' r) = output' (h r)) \<and>
      (\<forall>md. metadata (h r) = Val md \<longrightarrow> distinct (map fst md) \<longrightarrow>
            metadata (h' r) =
              Val (map (\<lambda>(k, v). (k, if length v \<le> maxFieldSize then v
                                       else take (500 * 1024) v @ truncationMessage))
                     (filter (\<lambda>kv. fst kv \<noteq> ''__proto__'') md))) \<and>
      (metadata (h r) = Missing \<or> metadata (h r) = Null \<longrightarrow> metadata (h' r) = metadata (h r)) \<and>
      (\<forall>s. input (h' r) = Val s \<longrightarrow> length s \<le> maxFieldSize) \<and>
      (\<forall>s. output' (h' r) = Val s \<longrightarrow> length s \<le> maxFieldSize) \<and>
      (\<forall>md k v. metadata (h' r) = Val md \<longrightarrow> (k, v) \<in> set md \<longrightarrow> length v \<le> maxFieldSize) \<and>
      (\<forall>s. input (h r) = Val s \<longrightarrow> length s > maxFieldSize \<longrightarrow>
            (\<exists>s'. input (h' r) = Val s' \<and> str_includes s' truncationMessage)) \<and>
      (\<forall>s. output' (h r) = Val s \<longrightarrow> length s > maxFieldSize \<longrightarrow>
            (\<exists>s'. output' (h' r) = Val s' \<and> str_includes s' truncationMessage)) \<and>
      truncateOversizedRecord t r h' = (r, h'))"
proof -
  let ?x = "h r"
  let ?cut = "\<lambda>s. if length s \<le> maxFieldSize then s else take (500 * 1024) s @ truncationMessage"
  have cut_small: "\<And>s. length (?cut s) \<le> maxFieldSize"
    by (simp add: maxFieldSize_def length_truncationMessage)
  have cut_marker: "\<And>s. length s > maxFieldSize \<Longrightarrow> str_includes (?cut s) truncationMessage"
    by (simp add: str_includes_append)
  have in_eq: "input (truncated ?x) = (case input ?x of Val s \<Rightarrow> Val (?cut s) | other \<Rightarrow> other)"
    by (simp add: truncated_def field_after)
  have out_eq: "output' (truncated ?x) = (case output' ?x of Val s \<Rightarrow> Val (?cut s) | other \<Rightarrow> other)"
    by (simp add: truncated_def field_after)
  have md_eq: "metadata (truncated ?x) =
      (case metadata ?x of Val md \<Rightarrow> Val (rebuildMetadata md) | other \<Rightarrow> other)"
    by (simp add: truncated_def)
  have te: "truncateEntry = (\<lambda>(k, v). (k, ?cut v))"
    by (auto simp: fun_eq_iff truncateEntry_eq)
  have ids: "record_id (truncated ?x) = record_id ?x" "project_id (truncated ?x) = project_id ?x"
    by (simp_all add: truncated_def)
  have size_in: "\<forall>s. input (truncated ?x) = Val s \<longrightarrow> length s \<le> maxFieldSize"
    using cut_small by (auto simp: in_eq split: jsfield.splits)
  have size_out: "\<forall>s. output' (truncated ?x) = Val s \<longrightarrow> length s \<le> maxFieldSize"
    using cut_small by (auto simp: out_eq split: jsfield.splits)
  have size_md: "\<forall>md k v. metadata (truncated ?x) = Val md \<longrightarrow> (k, v) \<in> set md \<longrightarrow>
                    length v \<le> maxFieldSize"
  proof (intro allI impI)
    fix md k v
    assume a: "metadata (truncated ?x) = Val md" "(k, v) \<in> set md"
    then obtain md0 where "md = rebuildMetadata md0"
      by (auto simp: truncated_def split: jsfield.splits)
    then have "rebuilt md" by (simp add: rebuildMetadata_rebuilt)
    with a(2) show "length v \<le> maxFieldSize"
      by (auto simp: rebuilt_def list_all_iff)
  qed
  have mark_in: "\<forall>s. input ?x = Val s \<longrightarrow> length s > maxFieldSize \<longrightarrow>
            (\<exists>s'. input (truncated ?x) = Val s' \<and> str_includes s' truncationMessage)"
    using cut_marker by (simp add: in_eq)
  have mark_out: "\<forall>s. output' ?x = Val s \<longrightarrow> length s > maxFieldSize \<longrightarrow>
            (\<exists>s'. output' (truncated ?x) = Val s' \<and> str_includes s' truncationMessage)"
    using cut_marker by (simp add: out_eq)
  have idem: "truncateOversizedRecord t r (h(r := truncated ?x)) = (r, h(r := truncated ?x))"
    by (simp add: truncateOversizedRecord_eq truncated_idem)
  have c_in: "\<forall>s. input ?x = Val s \<longrightarrow> input (truncated ?x) = Val (?cut s)"
    by (simp add: in_eq)
  have c_in': "input ?x = Missing \<or> input ?x = Null \<longrightarrow> input (truncated ?x) = input ?x"
    by (auto simp: in_eq)
  have c_out: "\<forall>s. output' ?x = Val s \<longrightarrow> output' (truncated ?x) = Val (?cut s)"
    by (simp add: out_eq)
  have c_out': "output' ?x = Missing \<or> output' ?x = Null \<longrightarrow> output' (truncated ?x) = output' ?x"
    by (auto simp: out_eq)
  have c_md: "\<forall>md. metadata ?x = Val md \<longrightarrow> distinct (map fst md) \<longrightarrow>
      metadata (truncated ?x) =
        Val (map (\<lambda>(k, v). (k, ?cut v)) (filter (\<lambda>kv. fst kv \<noteq> ''__proto__'') md))"
    by (simp add: md_eq rebuildMetadata_distinct te)
  have c_md': "metadata ?x = Missing \<or> metadata ?x = Null \<longrightarrow> metadata (truncated ?x) = metadata ?x"
    by (auto simp: md_eq)
  show ?thesis
    unfolding Let_def truncateOversizedRecord_eq fst_conv snd_conv fun_upd_same
    apply (intro conjI)
    subgoal by simp
    subgoal by simp
    subgoal by (rule ids)
    subgoal by (rule ids)
    subgoal by (rule c_in)
    subgoal by (rule c_in')
    subgoal by (rule c_out)
    subgoal by (rule c_out')
    subgoal by (rule c_md)
    subgoal by (rule c_md')
    subgoal by (rule size_in)
    subgoal by (rule size_out)
    subgoal by (rule size_md)
    subgoal by (rule mark_in)
    subgoal by (rule mark_out)
    subgoal by (simp add: truncated_idem)
    done
qed

text \<open>
  C4. Truncation is idempotent and leaves a field within the threshold untouched. The
  second half fails for a metadata entry stored under the own key \<open>__proto__\<close> (an
  object read by \<open>JSON.parse\<close> can have one): the assignment
  \<open>truncatedMetadata[key] = value\<close> reaches the prototype setter, which ignores a string,
  so the rebuilt metadata lacks the entry although its value is two code units long.
  Every field of the record below is far under the threshold, and truncation still
  changes the record. Applying truncation to the result changes nothing more.
\<close>

theorem truncation_drops_proto_entry:
  "metadata protoRecord = Val [(''__proto__'', ''x''), (''env'', ''prod'')] \<and>
   snd (truncateOversizedRecord Observations 8 (\<lambda>a. protoRecord)) 8 =
     protoRecord\<lparr>metadata := Val [(''env'', ''prod'')]\<rparr> \<and>
   snd (truncateOversizedRecord Observations 8 (\<lambda>a. protoRecord)) 8 \<noteq> protoRecord \<and>
   truncateOversizedRecord Observations 8
       (snd (truncateOversizedRecord Observations 8 (\<lambda>a. protoRecord))) =
     (8, snd (truncateOversizedRecord Observations 8 (\<lambda>a. protoRecord)))"
  by (simp add: truncateOversizedRecord_eq truncated_idem truncated_def protoRecord_def
        rebuildMetadata_def objectSet_def truncateEntry_eq maxFieldSize_def oversized_def)
text \<open>
  C5. A flush cycle on a non-empty queue in which the first \<open>k\<close> writes of the batch
  fail with a retryable error and the next one succeeds, with \<open>k\<close> below the attempt
  cap (\<open>numOfAttempts\<close>, at least 1), calls \<open>writeToClickhouse\<close> exactly \<open>k + 1\<close>
  times, each time with the same records and the same contents; no record is changed,
  the queue keeps exactly the items that were not taken, and nothing is dropped.
\<close>

theorem retryable_then_success:
  assumes ne: "queue s t \<noteq> []"
    and fails: "\<forall>i<k. \<exists>e. writeRecords P (length (writes s) + i) t
        (map (heap s) (map data (take (if full then length (queue s t) else batchSize cfg) (queue s t))))
          = Some e \<and> isRetryableError e"
    and ok: "writeRecords P (length (writes s) + k) t
        (map (heap s) (map data (take (if full then length (queue s t) else batchSize cfg) (queue s t))))
          = None"
    and cap: "int k < max 1 (envMaxAttempts cfg)"
  shows "writes (flush cfg P t full s) =
           writes s @ replicate (k + 1)
             (t, map (heap s) (map data
                (take (if full then length (queue s t) else batchSize cfg) (queue s t)))) \<and>
         heap (flush cfg P t full s) = heap s \<and>
         queue (flush cfg P t full s) =
           (queue s)(t := drop (if full then length (queue s t) else batchSize cfg) (queue s t)) \<and>
         errorCount (flush cfg P t full s) = errorCount s"
  using assms by (rule flush_retryable_then_success)

theorem retryable_then_success_witness:
  "queue (stateWith [mkItem 1 1, mkItem 1 2]) Traces \<noteq> [] \<and>
   isRetryableError socketHangUp \<and>
   writeRecords (failFirst 2 socketHangUp) 0 Traces [smallRecord, smallRecord] = Some socketHangUp \<and>
   writeRecords (failFirst 2 socketHangUp) 1 Traces [smallRecord, smallRecord] = Some socketHangUp \<and>
   writeRecords (failFirst 2 socketHangUp) 2 Traces [smallRecord, smallRecord] = None \<and>
   writes (flush (exampleConfig 2 3) (failFirst 2 socketHangUp) Traces False
             (stateWith [mkItem 1 1, mkItem 1 2])) =
     [(Traces, [smallRecord, smallRecord]), (Traces, [smallRecord, smallRecord]),
      (Traces, [smallRecord, smallRecord])] \<and>
   queue (flush (exampleConfig 2 3) (failFirst 2 socketHangUp) Traces False
             (stateWith [mkItem 1 1, mkItem 1 2])) Traces = [] \<and>
   errorCount (flush (exampleConfig 2 3) (failFirst 2 socketHangUp) Traces False
             (stateWith [mkItem 1 1, mkItem 1 2])) = 0"
proof -
  let ?s = "stateWith [mkItem 1 1, mkItem 1 2]"
  let ?cfg = "exampleConfig 2 3"
  let ?P = "failFirst 2 socketHangUp"
  have vals: "map (heap ?s) (map data (take (if False then length (queue ?s Traces) else batchSize ?cfg)
                 (queue ?s Traces))) = [smallRecord, smallRecord]"
    by (simp add: stateWith_def exampleConfig_def mkItem_def newWriter_def exampleStore_def)
  have w: "writeRecords ?P 0 Traces [smallRecord, smallRecord] = Some socketHangUp"
    "writeRecords ?P 1 Traces [smallRecord, smallRecord] = Some socketHangUp"
    "writeRecords ?P 2 Traces [smallRecord, smallRecord] = None"
    by (simp_all add: failFirst_def)
  have ne: "queue ?s Traces \<noteq> []" by (simp add: stateWith_def)
  have len: "length (writes ?s) = 0" by (simp add: stateWith_def newWriter_def)
  have fails: "\<forall>i<2. \<exists>e. writeRecords ?P (length (writes ?s) + i) Traces
        (map (heap ?s) (map data (take (if False then length (queue ?s Traces) else batchSize ?cfg)
            (queue ?s Traces)))) = Some e \<and> isRetryableError e"
    unfolding vals len using ex_classes(1) by (simp add: failFirst_def)
  have ok: "writeRecords ?P (length (writes ?s) + 2) Traces
        (map (heap ?s) (map data (take (if False then length (queue ?s Traces) else batchSize ?cfg)
            (queue ?s Traces)))) = None"
    unfolding vals len by (simp add: failFirst_def)
  have cap: "int 2 < max 1 (envMaxAttempts ?cfg)" by (simp add: exampleConfig_def)
  from retryable_then_success [OF ne fails ok cap] ne w ex_classes(1) show ?thesis
    unfolding vals
    by (simp add: stateWith_def newWriter_def exampleConfig_def numeral_3_eq_3)
qed


text \<open>
  C6. The three error predicates are total functions of the thrown value. For an error
  object whose lower-cased message contains neither "socket hang up" nor "invalid string
  length" nor all three of "size of json object", "extremely large" and "expected not
  greater than", all three predicates are false and the \<open>retry\<close> callback answers
  false without touching the batch, the queue or the records. The attempt loop then ends
  at that attempt: one write is made, nothing is split or truncated, and when this is
  the first attempt of a cycle the whole batch goes to the catch block of \<open>flush\<close>.
\<close>

theorem unmatched_error_is_fatal:
  assumes "\<not> str_includes (errorMessage m) ''socket hang up''"
    and "\<not> str_includes (errorMessage m) ''invalid string length''"
    and "\<not> (str_includes (errorMessage m) ''size of json object'' \<and>
            str_includes (errorMessage m) ''extremely large'' \<and>
            str_includes (errorMessage m) ''expected not greater than'')"
  shows "\<not> isRetryableError (JsObject m) \<and> \<not> isStringLengthError (JsObject m) \<and>
         \<not> isSizeError (JsObject m) \<and>
         retry t (JsObject m) k c = (Inr False, c\<lparr>world := addLog ErrorNonRetryable (world c)\<rparr>) \<and>
         (int k < N \<and>
          writeRecords P (length (writes (world c))) t
            (map (heap (world c)) (recordsToWrite c)) = Some (JsObject m) \<longrightarrow>
          fst (backOff_execute (request P t) (retry t) N k c) \<noteq> None \<and>
          queueItems (snd (backOff_execute (request P t) (retry t) N k c)) = queueItems c \<and>
          recordsToWrite (snd (backOff_execute (request P t) (retry t) N k c)) = recordsToWrite c \<and>
          hasBeenTruncated (snd (backOff_execute (request P t) (retry t) N k c)) = hasBeenTruncated c \<and>
          queue (world (snd (backOff_execute (request P t) (retry t) N k c))) = queue (world c) \<and>
          heap (world (snd (backOff_execute (request P t) (retry t) N k c))) = heap (world c) \<and>
          writes (world (snd (backOff_execute (request P t) (retry t) N k c))) =
            writes (world c) @ [(t, map (heap (world c)) (recordsToWrite c))]) \<and>
         (queue s t \<noteq> [] \<and>
          writeRecords P (length (writes s)) t
            (map (heap s) (map data
               (take (if full then length (queue s t) else batchSize cfg) (queue s t))))
            = Some (JsObject m) \<longrightarrow>
          writes (flush cfg P t full s) =
            writes s @ [(t, map (heap s) (map data
               (take (if full then length (queue s t) else batchSize cfg) (queue s t))))] \<and>
          heap (flush cfg P t full s) = heap s \<and>
          queue (flush cfg P t full s) =
            (queue s)(t := drop (if full then length (queue s t) else batchSize cfg) (queue s t) @
               map (\<lambda>i. i\<lparr>attempts := attempts i + 1\<rparr>)
                 (filter (\<lambda>i. attempts i < maxAttempts cfg)
                    (take (if full then length (queue s t) else batchSize cfg) (queue s t)))))"
proof -
  have cls: "\<not> isRetryableError (JsObject m)" "\<not> isStringLengthError (JsObject m)"
      "\<not> isSizeError (JsObject m)"
    using assms by (simp_all add: isRetryableError_def isStringLengthError_def isSizeError_def)
  have r: "retry t (JsObject m) k c =
      (Inr False, c\<lparr>world := addLog ErrorNonRetryable (world c)\<rparr>)"
    using retry_fatal [OF cls(1,2), of c t k] cls(3) by simp
  have l: "int k < N \<and>
          writeRecords P (length (writes (world c))) t
            (map (heap (world c)) (recordsToWrite c)) = Some (JsObject m) \<longrightarrow>
          fst (backOff_execute (request P t) (retry t) N k c) \<noteq> None \<and>
          queueItems (snd (backOff_execute (request P t) (retry t) N k c)) = queueItems c \<and>
          recordsToWrite (snd (backOff_execute (request P t) (retry t) N k c)) = recordsToWrite c \<and>
          hasBeenTruncated (snd (backOff_execute (request P t) (retry t) N k c)) = hasBeenTruncated c \<and>
          queue (world (snd (backOff_execute (request P t) (retry t) N k c))) = queue (world c) \<and>
          heap (world (snd (backOff_execute (request P t) (retry t) N k c))) = heap (world c) \<and>
          writes (world (snd (backOff_execute (request P t) (retry t) N k c))) =
            writes (world c) @ [(t, map (heap (world c)) (recordsToWrite c))]"
    using backOff_fatal_stops [OF cls(1,2), of c P t k N] cls(3) by blast
  show ?thesis
    using cls r l flush_fatal [OF cls, of s t P full cfg] by blast
qed

theorem unmatched_error_is_fatal_witness:
  "\<not> isRetryableError uniqueViolation \<and> \<not> isStringLengthError uniqueViolation \<and>
   \<not> isSizeError uniqueViolation \<and>
   writes (flush (exampleConfig 2 3) (always uniqueViolation) Traces False
             (stateWith [mkItem 1 1, mkItem 3 2])) = [(Traces, [smallRecord, smallRecord])] \<and>
   queue (flush (exampleConfig 2 3) (always uniqueViolation) Traces False
             (stateWith [mkItem 1 1, mkItem 3 2])) Traces = [mkItem 2 1]"
proof -
  have m: "\<not> str_includes (errorMessage (Some ''Unique constraint failed on the fields: (id)'')) ''socket hang up''"
    "\<not> str_includes (errorMessage (Some ''Unique constraint failed on the fields: (id)'')) ''invalid string length''"
    "\<not> (str_includes (errorMessage (Some ''Unique constraint failed on the fields: (id)'')) ''size of json object'' \<and>
        str_includes (errorMessage (Some ''Unique constraint failed on the fields: (id)'')) ''extremely large'' \<and>
        str_includes (errorMessage (Some ''Unique constraint failed on the fields: (id)'')) ''expected not greater than'')"
    by code_simp+
  have w: "writeRecords (always uniqueViolation) 0 Traces [smallRecord, smallRecord] = Some uniqueViolation"
    by (simp add: always_def)
  show ?thesis
    using unmatched_error_is_fatal [OF m, where s = "stateWith [mkItem 1 1, mkItem 3 2]"
        and t = Traces and P = "always uniqueViolation" and full = False
        and cfg = "exampleConfig 2 3"] w
    by (simp add: uniqueViolation_def exampleConfig_def stateWith_def mkItem_def newWriter_def
          exampleStore_def)
qed


text \<open>
  C7 (amended). Truncation during a flush cycle is done in place, on the record object
  that the queue item refers to, and not on a copy. \<open>truncateOversizedRecord\<close> returns
  the reference it was given. In the size-error branch and in the single-item fallback
  of the string-length branch the items in flight keep their references, the records
  they refer to are the ones truncated, and no other record changes. Each write submits
  the current contents of the records in flight. The catch block of \<open>flush\<close> changes no
  record, and the items it requeues refer to the same records as before. Over one call
  of \<open>flush\<close>: a record is afterwards as it was before or is the truncated form of
  that, and only records that items of the batch taken refer to are truncated; every
  batch submitted consists of such records of the batch; and every item in the queue
  afterwards is an item that was in the queue before or such an item of the batch with
  its attempts incremented. The same holds for \<open>addToQueue\<close> (with the new item
  counted as being there before), \<open>flushAll\<close> and \<open>shutdown\<close>: throughout its life an
  item changes only by the attempts increment and by this truncation of its payload.
\<close>

theorem truncation_in_place:
  "fst (truncateOversizedRecord t r h) = r \<and>
   writes (world (snd (request P t c))) =
     writes (world c) @ [(t, map (heap (world c)) (recordsToWrite c))] \<and>
   (isSizeError e \<and> \<not> isRetryableError e \<and> \<not> isStringLengthError e \<and>
    \<not> hasBeenTruncated c \<and> recordsToWrite c = map data (queueItems c) \<longrightarrow>
      queueItems (snd (retry t e k c)) = queueItems c \<and>
      recordsToWrite (snd (retry t e k c)) = map data (queueItems c) \<and>
      (\<forall>i \<in> set (queueItems c).
         heap (world (snd (retry t e k c))) (data i) =
           snd (truncateOversizedRecord t (data i) (heap (world c))) (data i)) \<and>
      (\<forall>a. a \<notin> data ` set (queueItems c) \<longrightarrow>
         heap (world (snd (retry t e k c))) a = heap (world c) a)) \<and>
   (isStringLengthError e \<and> \<not> isRetryableError e \<and> queueItems c = [item] \<longrightarrow>
      queueItems (snd (retry t e k c)) = [item] \<and>
      recordsToWrite (snd (retry t e k c)) = [data item] \<and>
      heap (world (snd (retry t e k c))) =
        snd (truncateOversizedRecord t (data item) (heap (world c)))) \<and>
   map data (queue (flushCatch cfg t err items s) t) =
     map data (queue s t) @ map data (filter (\<lambda>i. attempts i < maxAttempts cfg) items) \<and>
   heap (flushCatch cfg t err items s) = heap s \<and>
   (\<forall>a. heap (flush cfg P t full s) a = heap s a \<or>
        (a \<in> data ` set (take (if full then length (queue s t) else batchSize cfg) (queue s t)) \<and>
         heap (flush cfg P t full s) a = truncated (heap s a))) \<and>
   (\<exists>ws. writes (flush cfg P t full s) = writes s @ ws \<and>
      (\<forall>w \<in> set ws. fst w = t \<and>
         (\<forall>x \<in> set (snd w).
            \<exists>a \<in> data ` set (take (if full then length (queue s t) else batchSize cfg) (queue s t)).
              x = heap s a \<or> x = truncated (heap s a)))) \<and>
   (\<forall>i \<in> set (queue (flush cfg P t full s) t).
      i \<in> set (queue s t) \<or>
      (\<exists>j \<in> set (take (if full then length (queue s t) else batchSize cfg) (queue s t)).
         i = j\<lparr>attempts := attempts j + 1\<rparr>)) \<and>
   (\<forall>t'. sameOrRetried
           (queue s t' @ (if t' = t then [\<lparr>createdAt = now, attempts = 1, data = d\<rparr>] else []))
           (queue (addToQueue cfg P t d now s) t')) \<and>
   sameOrTruncated (heap s) (heap (addToQueue cfg P t d now s)) \<and>
   (\<forall>t'. sameOrRetried (queue s t') (queue (flushAll cfg P full s) t')) \<and>
   sameOrTruncated (heap s) (heap (flushAll cfg P full s)) \<and>
   (\<forall>t'. sameOrRetried (queue s t') (queue (shutdown cfg P s) t')) \<and>
   sameOrTruncated (heap s) (heap (shutdown cfg P s))"
proof -
  have a: "fst (truncateOversizedRecord t r h) = r"
    by (simp add: truncateOversizedRecord_eq)
  have b: "writes (world (snd (request P t c))) =
     writes (world c) @ [(t, map (heap (world c)) (recordsToWrite c))]"
    by simp
  have sz: "isSizeError e \<and> \<not> isRetryableError e \<and> \<not> isStringLengthError e \<and>
    \<not> hasBeenTruncated c \<and> recordsToWrite c = map data (queueItems c) \<longrightarrow>
      queueItems (snd (retry t e k c)) = queueItems c \<and>
      recordsToWrite (snd (retry t e k c)) = map data (queueItems c) \<and>
      (\<forall>i \<in> set (queueItems c).
         heap (world (snd (retry t e k c))) (data i) =
           snd (truncateOversizedRecord t (data i) (heap (world c))) (data i)) \<and>
      (\<forall>a. a \<notin> data ` set (queueItems c) \<longrightarrow>
         heap (world (snd (retry t e k c))) a = heap (world c) a)"
  proof (intro impI, elim conjE)
    assume cls: "isSizeError e" "\<not> isRetryableError e" "\<not> isStringLengthError e"
      and nt: "\<not> hasBeenTruncated c" and rw: "recordsToWrite c = map data (queueItems c)"
    note r = retry_size [OF cls(2,3,1) nt, of t k]
    show "queueItems (snd (retry t e k c)) = queueItems c \<and>
      recordsToWrite (snd (retry t e k c)) = map data (queueItems c) \<and>
      (\<forall>i \<in> set (queueItems c).
         heap (world (snd (retry t e k c))) (data i) =
           snd (truncateOversizedRecord t (data i) (heap (world c))) (data i)) \<and>
      (\<forall>a. a \<notin> data ` set (queueItems c) \<longrightarrow>
         heap (world (snd (retry t e k c))) a = heap (world c) a)"
      by (simp add: r rw truncateOversizedRecord_eq)
  qed
  have sl: "isStringLengthError e \<and> \<not> isRetryableError e \<and> queueItems c = [item] \<longrightarrow>
      queueItems (snd (retry t e k c)) = [item] \<and>
      recordsToWrite (snd (retry t e k c)) = [data item] \<and>
      heap (world (snd (retry t e k c))) =
        snd (truncateOversizedRecord t (data item) (heap (world c)))"
  proof (intro impI, elim conjE)
    assume cls: "isStringLengthError e" "\<not> isRetryableError e" and q: "queueItems c = [item]"
    from retry_single [OF cls(2,1) q, of t k] show
     "queueItems (snd (retry t e k c)) = [item] \<and>
      recordsToWrite (snd (retry t e k c)) = [data item] \<and>
      heap (world (snd (retry t e k c))) =
        snd (truncateOversizedRecord t (data item) (heap (world c)))"
      by (simp add: truncateOversizedRecord_eq)
  qed
  have fc: "map data (queue (flushCatch cfg t err items s) t) =
     map data (queue s t) @ map data (filter (\<lambda>i. attempts i < maxAttempts cfg) items)"
    by (simp add: flushCatch_queue comp_def)
  have fh: "heap (flushCatch cfg t err items s) = heap s"
    by (simp add: flushCatch_frame)
  note fp = flush_payload [of cfg P t full s]
  have life: "(\<forall>t'. sameOrRetried
           (queue s t' @ (if t' = t then [\<lparr>createdAt = now, attempts = 1, data = d\<rparr>] else []))
           (queue (addToQueue cfg P t d now s) t')) \<and>
   sameOrTruncated (heap s) (heap (addToQueue cfg P t d now s)) \<and>
   (\<forall>t'. sameOrRetried (queue s t') (queue (flushAll cfg P full s) t')) \<and>
   sameOrTruncated (heap s) (heap (flushAll cfg P full s)) \<and>
   (\<forall>t'. sameOrRetried (queue s t') (queue (shutdown cfg P s) t')) \<and>
   sameOrTruncated (heap s) (heap (shutdown cfg P s))"
    by (intro conjI allI addToQueue_same shutdown_same)
  from a b sz sl fc fh fp life show ?thesis by (intro conjI) blast+
qed

theorem truncation_in_place_witness:
  "isSizeError tooLarge \<and> \<not> isRetryableError tooLarge \<and> \<not> isStringLengthError tooLarge \<and>
   hasBeenTruncated cycle1a = False \<and>
   queueItems cycle1a = [mkItem 1 7] \<and>
   recordsToWrite cycle1a = map data (queueItems cycle1a) \<and>
   queueItems (snd (retry Traces tooLarge 1 cycle1a)) = [mkItem 1 7] \<and>
   recordsToWrite (snd (retry Traces tooLarge 1 cycle1a)) = [7] \<and>
   input (heap (world (snd (retry Traces tooLarge 1 cycle1a))) 7) =
     Val (replicate 512000 CHR ''x'' @ truncationMessage) \<and>
   heap (world (snd (retry Traces tooLarge 1 cycle1a))) 8 = smallRecord \<and>
   queue (stateWith [mkItem 1 7]) Traces = [mkItem 1 7] \<and>
   heap (flush (exampleConfig 4 3) (always tooLarge) Traces False (stateWith [mkItem 1 7])) 8 =
     smallRecord \<and>
   (heap (flush (exampleConfig 4 3) (always tooLarge) Traces False (stateWith [mkItem 1 7])) 7 =
      bigRecord \<or>
    heap (flush (exampleConfig 4 3) (always tooLarge) Traces False (stateWith [mkItem 1 7])) 7 =
      truncated bigRecord)"
proof -
  have a: "hasBeenTruncated cycle1a = False" "recordsToWrite cycle1a = [7]"
    "queueItems cycle1a = [mkItem 1 7]" "heap (world cycle1a) = exampleStore"
    by (simp_all add: cycle1a_def ex_cycle1)
  have d: "data (mkItem 1 7) = 7" by (simp add: mkItem_def)
  have big: "snd (truncateOversizedRecord Traces 7 exampleStore) 7 = truncated bigRecord"
    by (simp add: truncateOversizedRecord_eq exampleStore_def)
  have sm: "exampleStore 8 = smallRecord" by (simp add: exampleStore_def)
  note T = truncation_in_place [where e = tooLarge and c = cycle1a and t = Traces and k = 1,
      THEN conjunct2, THEN conjunct2, THEN conjunct1]
  note F = truncation_in_place [where t = Traces and cfg = "exampleConfig 4 3"
      and P = "always tooLarge" and full = False and s = "stateWith [mkItem 1 7]",
      THEN conjunct2, THEN conjunct2, THEN conjunct2, THEN conjunct2, THEN conjunct2,
      THEN conjunct2, THEN conjunct1]
  have s0: "queue (stateWith [mkItem 1 7]) Traces = [mkItem 1 7]"
    "heap (stateWith [mkItem 1 7]) = exampleStore"
    by (simp_all add: stateWith_def newWriter_def)
  have f8: "heap (flush (exampleConfig 4 3) (always tooLarge) Traces False
      (stateWith [mkItem 1 7])) 8 = smallRecord"
    using F [THEN spec, of 8] by (simp add: s0 sm d exampleConfig_def)
  have f7: "heap (flush (exampleConfig 4 3) (always tooLarge) Traces False
        (stateWith [mkItem 1 7])) 7 = bigRecord \<or>
      heap (flush (exampleConfig 4 3) (always tooLarge) Traces False
        (stateWith [mkItem 1 7])) 7 = truncated bigRecord"
    using F [THEN spec, of 7] by (auto simp: s0 exampleStore_def)
  have r: "isSizeError tooLarge \<and> \<not> isRetryableError tooLarge \<and> \<not> isStringLengthError tooLarge \<and>
   hasBeenTruncated cycle1a = False \<and>
   queueItems cycle1a = [mkItem 1 7] \<and>
   recordsToWrite cycle1a = map data (queueItems cycle1a) \<and>
   queueItems (snd (retry Traces tooLarge 1 cycle1a)) = [mkItem 1 7] \<and>
   recordsToWrite (snd (retry Traces tooLarge 1 cycle1a)) = [7] \<and>
   input (heap (world (snd (retry Traces tooLarge 1 cycle1a))) 7) =
     Val (replicate 512000 CHR ''x'' @ truncationMessage) \<and>
   heap (world (snd (retry Traces tooLarge 1 cycle1a))) 8 = smallRecord"
    using T ex_classes(4,5,6)
    by (simp add: a d big sm ex_truncated_big)
  from r s0(1) f8 f7 show ?thesis by (intro conjI) simp_all
qed


text \<open>
  C7 as stated fails: one queued item refers to record 7, whose input is longer than the
  threshold, and every write fails with the size error. After the cycle the item is back
  in the queue with \<open>attempts = 2\<close>, it still refers to record 7, and record 7 itself now
  holds the truncated input: the payload object held by the queue item was changed.
\<close>

lemma ex_flush_big:
  "queue (flush (exampleConfig 4 3) (always tooLarge) Traces False (stateWith [mkItem 1 7])) Traces =
     [mkItem 2 7] \<and>
   heap (flush (exampleConfig 4 3) (always tooLarge) Traces False (stateWith [mkItem 1 7])) 7 =
     truncated bigRecord \<and>
   writes (flush (exampleConfig 4 3) (always tooLarge) Traces False (stateWith [mkItem 1 7])) =
     [(Traces, [bigRecord]), (Traces, [truncated bigRecord])]"
  by (simp add: flush_def backOff_def backOff_execute.simps request_def writeToClickhouse_def
        retry_size retry_fatal ex_objects flushCatch_def requeueOrDrop_def addLog_def
        exampleConfig_def stateWith_def mkItem_def newWriter_def always_def
        exampleStore_def ex_classes Let_def)

theorem payload_mutated_counterexample:
  "queue (stateWith [mkItem 1 7]) Traces = [mkItem 1 7] \<and>
   data (mkItem 1 7) = 7 \<and>
   heap (stateWith [mkItem 1 7]) 7 = bigRecord \<and>
   queue (flush (exampleConfig 4 3) (always tooLarge) Traces False (stateWith [mkItem 1 7])) Traces =
     [mkItem 2 7] \<and>
   data (mkItem 2 7) = 7 \<and>
   input (heap (flush (exampleConfig 4 3) (always tooLarge) Traces False
      (stateWith [mkItem 1 7])) 7) = Val (replicate 512000 CHR ''x'' @ truncationMessage) \<and>
   heap (flush (exampleConfig 4 3) (always tooLarge) Traces False (stateWith [mkItem 1 7])) 7 \<noteq>
     heap (stateWith [mkItem 1 7]) 7"
proof -
  let ?s' = "flush (exampleConfig 4 3) (always tooLarge) Traces False (stateWith [mkItem 1 7])"
  have s0: "queue (stateWith [mkItem 1 7]) Traces = [mkItem 1 7]"
    "heap (stateWith [mkItem 1 7]) 7 = bigRecord"
    by (simp_all add: stateWith_def newWriter_def exampleStore_def)
  have d: "data (mkItem 1 7) = 7" "data (mkItem 2 7) = 7" by (simp_all add: mkItem_def)
  have q: "queue ?s' Traces = [mkItem 2 7]" using ex_flush_big by simp
  have i: "input (heap ?s' 7) = Val (replicate 512000 CHR ''x'' @ truncationMessage)"
    using ex_flush_big by (simp add: ex_truncated_big)
  have ne: "heap ?s' 7 \<noteq> heap (stateWith [mkItem 1 7]) 7"
  proof
    assume "heap ?s' 7 = heap (stateWith [mkItem 1 7]) 7"
    then have "input (heap ?s' 7) = input bigRecord" by (simp add: s0)
    then have "replicate 512000 CHR ''x'' @ truncationMessage = replicate 1048577 CHR ''x''"
      by (simp add: i bigRecord_def)
    then have "length (replicate 512000 CHR ''x'' @ truncationMessage) =
        length (replicate 1048577 CHR ''x'')"
      by (rule arg_cong)
    then show False by (simp add: length_truncationMessage)
  qed
  from s0(1) d(1) s0(2) q d(2) i ne show ?thesis by (intro conjI)
qed


text \<open>
  C8 (amended). \<open>addToQueue\<close> appends an item with \<open>attempts = 1\<close> and the given
  time to the back of the table's queue. When the queue is then shorter than
  \<open>batchSize\<close> nothing else happens; otherwise, and only then, the result is that of
  \<open>flush\<close> for this table without \<open>fullQueue\<close>, and no error reaches the caller. When
  the first write of that flush succeeds, the first \<open>batchSize\<close> items have been written
  as one batch and the queue keeps the items behind them: its length is the length after
  the append minus \<open>batchSize\<close>, which is 0 when the append made the length exactly
  \<open>batchSize\<close>.
\<close>

theorem enqueue_flushes_batch:
  "(length (queue s t) + 1 < batchSize cfg \<longrightarrow>
      addToQueue cfg P t d now s =
        s\<lparr>queue := (queue s)(t := queue s t @ [\<lparr>createdAt = now, attempts = 1, data = d\<rparr>])\<rparr>) \<and>
   (batchSize cfg \<le> length (queue s t) + 1 \<longrightarrow>
      addToQueue cfg P t d now s =
        flush cfg P t False
          (s\<lparr>queue := (queue s)(t := queue s t @ [\<lparr>createdAt = now, attempts = 1, data = d\<rparr>])\<rparr>)) \<and>
   (batchSize cfg \<le> length (queue s t) + 1 \<and>
    writeRecords P (length (writes s)) t
      (map (heap s) (map data (take (batchSize cfg)
         (queue s t @ [\<lparr>createdAt = now, attempts = 1, data = d\<rparr>])))) = None \<longrightarrow>
      queue (addToQueue cfg P t d now s) =
        (queue s)(t := drop (batchSize cfg)
           (queue s t @ [\<lparr>createdAt = now, attempts = 1, data = d\<rparr>])) \<and>
      writes (addToQueue cfg P t d now s) =
        writes s @ [(t, map (heap s) (map data (take (batchSize cfg)
           (queue s t @ [\<lparr>createdAt = now, attempts = 1, data = d\<rparr>]))))] \<and>
      length (queue (addToQueue cfg P t d now s) t) = length (queue s t) + 1 - batchSize cfg \<and>
      (length (queue s t) + 1 = batchSize cfg \<longrightarrow> queue (addToQueue cfg P t d now s) t = []))"
proof -
  let ?item = "\<lparr>createdAt = now, attempts = 1, data = d\<rparr>"
  let ?s1 = "s\<lparr>queue := (queue s)(t := queue s t @ [?item])\<rparr>"
  have a: "length (queue s t) + 1 < batchSize cfg \<longrightarrow> addToQueue cfg P t d now s = ?s1"
    by (simp add: addToQueue_def Let_def)
  have b: "batchSize cfg \<le> length (queue s t) + 1 \<longrightarrow>
      addToQueue cfg P t d now s = flush cfg P t False ?s1"
    by (simp add: addToQueue_def Let_def)
  have c: "batchSize cfg \<le> length (queue s t) + 1 \<and>
    writeRecords P (length (writes s)) t
      (map (heap s) (map data (take (batchSize cfg) (queue s t @ [?item])))) = None \<longrightarrow>
      queue (addToQueue cfg P t d now s) = (queue s)(t := drop (batchSize cfg) (queue s t @ [?item])) \<and>
      writes (addToQueue cfg P t d now s) =
        writes s @ [(t, map (heap s) (map data (take (batchSize cfg) (queue s t @ [?item]))))] \<and>
      length (queue (addToQueue cfg P t d now s) t) = length (queue s t) + 1 - batchSize cfg \<and>
      (length (queue s t) + 1 = batchSize cfg \<longrightarrow> queue (addToQueue cfg P t d now s) t = [])"
  proof (intro impI, elim conjE)
    assume ge: "batchSize cfg \<le> length (queue s t) + 1"
      and w: "writeRecords P (length (writes s)) t
        (map (heap s) (map data (take (batchSize cfg) (queue s t @ [?item])))) = None"
    have eq: "addToQueue cfg P t d now s = flush cfg P t False ?s1" using b ge by simp
    have ne: "queue ?s1 t \<noteq> []" by simp
    have ok: "writeRecords P (length (writes ?s1) + 0) t
        (map (heap ?s1) (map data (take (if False then length (queue ?s1 t) else batchSize cfg)
            (queue ?s1 t)))) = None"
      using w by simp
    have cap: "int 0 < max 1 (envMaxAttempts cfg)" by simp
    note f = flush_retryable_then_success [OF ne _ ok cap]
    have q: "queue (addToQueue cfg P t d now s) =
        (queue s)(t := drop (batchSize cfg) (queue s t @ [?item]))"
      using f by (simp add: eq)
    have wr: "writes (addToQueue cfg P t d now s) =
        writes s @ [(t, map (heap s) (map data (take (batchSize cfg) (queue s t @ [?item]))))]"
      using f by (simp add: eq)
    have len: "length (queue (addToQueue cfg P t d now s) t) = length (queue s t) + 1 - batchSize cfg"
      by (simp add: q)
    have emp: "length (queue s t) + 1 = batchSize cfg \<longrightarrow> queue (addToQueue cfg P t d now s) t = []"
      by (simp add: q)
    from q wr len emp show
     "queue (addToQueue cfg P t d now s) = (queue s)(t := drop (batchSize cfg) (queue s t @ [?item])) \<and>
      writes (addToQueue cfg P t d now s) =
        writes s @ [(t, map (heap s) (map data (take (batchSize cfg) (queue s t @ [?item]))))] \<and>
      length (queue (addToQueue cfg P t d now s) t) = length (queue s t) + 1 - batchSize cfg \<and>
      (length (queue s t) + 1 = batchSize cfg \<longrightarrow> queue (addToQueue cfg P t d now s) t = [])"
      by blast
  qed
  from a b c show ?thesis by blast
qed

theorem enqueue_flushes_batch_witness:
  "queue (addToQueue (exampleConfig 2 3) healthy Traces 1 10 (newWriter exampleStore)) Traces =
     [\<lparr>createdAt = 10, attempts = 1, data = 1\<rparr>] \<and>
   batchSize (exampleConfig 2 3) \<le> length (queue (stateWith [mkItem 1 1]) Traces) + 1 \<and>
   queue (addToQueue (exampleConfig 2 3) healthy Traces 2 20 (stateWith [mkItem 1 1])) Traces = [] \<and>
   writes (addToQueue (exampleConfig 2 3) healthy Traces 2 20 (stateWith [mkItem 1 1])) =
     [(Traces, [smallRecord, smallRecord])] \<and>
   length (queue (addToQueue (exampleConfig 2 3) healthy Traces 3 30
      (stateWith [mkItem 2 1, mkItem 2 2])) Traces) = 1"
proof -
  have h: "\<And>n rs. writeRecords healthy n Traces rs = None"
    by (rule writeRecords_healthy) (simp add: healthy_def)
  note a = enqueue_flushes_batch [of "newWriter exampleStore" Traces "exampleConfig 2 3" healthy 1 10,
      THEN conjunct1]
  note b = enqueue_flushes_batch [of "stateWith [mkItem 1 1]" Traces "exampleConfig 2 3" healthy 2 20,
      THEN conjunct2, THEN conjunct2]
  note c = enqueue_flushes_batch [of "stateWith [mkItem 2 1, mkItem 2 2]" Traces "exampleConfig 2 3"
      healthy 3 30, THEN conjunct2, THEN conjunct2]
  show ?thesis
    using a b c
    by (simp add: healthy_def stateWith_def newWriter_def exampleConfig_def mkItem_def
          exampleStore_def)
qed


text \<open>
  C8 as stated fails: with \<open>batchSize = 2\<close>, two records are enqueued and their flush
  fails with a fatal error, so both go back to the queue with \<open>attempts = 2\<close>. The third
  \<open>addToQueue\<close> makes the length 3, the flush it triggers writes the first two items
  successfully, and the new item stays queued: the length is 1, not 0.
\<close>

lemma ex_run1:
  "queue run1 = (\<lambda>t. [])(Traces := [\<lparr>createdAt = 10, attempts = 1, data = 1\<rparr>])"
  "writes run1 = []" "heap run1 = exampleStore" "errorCount run1 = 0"
  by (simp_all add: run1_def addToQueue_def exampleConfig_def newWriter_def Let_def)

lemma ex_run2:
  "queue run2 Traces =
     [\<lparr>createdAt = 10, attempts = 2, data = 1\<rparr>, \<lparr>createdAt = 20, attempts = 2, data = 2\<rparr>]"
  "writes run2 = [(Traces, [smallRecord, smallRecord])]"
  "heap run2 = exampleStore" "errorCount run2 = 0"
proof -
  let ?s1 = "run1\<lparr>queue := (queue run1)(Traces := queue run1 Traces @
                 [\<lparr>createdAt = 20, attempts = 1, data = 2\<rparr>])\<rparr>"
  have r: "run2 = flush (exampleConfig 2 3) (failFirst 1 uniqueViolation) Traces False ?s1"
    by (simp add: run2_def addToQueue_def Let_def ex_run1 exampleConfig_def)
  have ne: "queue ?s1 Traces \<noteq> []" by (simp add: ex_run1)
  have fail: "writeRecords (failFirst 1 uniqueViolation) (length (writes ?s1)) Traces
        (map (heap ?s1) (map data (take (if False then length (queue ?s1 Traces)
             else batchSize (exampleConfig 2 3)) (queue ?s1 Traces)))) = Some uniqueViolation"
    by (simp add: ex_run1 exampleConfig_def failFirst_def exampleStore_def)
  note f = flush_fatal [OF ex_classes(7,8,9) ne fail]
  from f show "queue run2 Traces =
     [\<lparr>createdAt = 10, attempts = 2, data = 1\<rparr>, \<lparr>createdAt = 20, attempts = 2, data = 2\<rparr>]"
    by (simp add: r ex_run1 exampleConfig_def)
  from f show "writes run2 = [(Traces, [smallRecord, smallRecord])]"
    by (simp add: r ex_run1 exampleConfig_def exampleStore_def)
  from f show "heap run2 = exampleStore" by (simp add: r ex_run1)
  from f show "errorCount run2 = 0" by (simp add: r ex_run1 exampleConfig_def)
qed

lemma ex_run3:
  "queue run3 Traces = [\<lparr>createdAt = 30, attempts = 1, data = 3\<rparr>]"
  "writes run3 = [(Traces, [smallRecord, smallRecord]), (Traces, [smallRecord, smallRecord])]"
  "errorCount run3 = 0"
proof -
  let ?s1 = "run2\<lparr>queue := (queue run2)(Traces := queue run2 Traces @
                 [\<lparr>createdAt = 30, attempts = 1, data = 3\<rparr>])\<rparr>"
  have r: "run3 = flush (exampleConfig 2 3) (failFirst 1 uniqueViolation) Traces False ?s1"
    by (simp add: run3_def addToQueue_def Let_def ex_run2 exampleConfig_def)
  have ne: "queue ?s1 Traces \<noteq> []" by (simp add: ex_run2)
  have ok: "writeRecords (failFirst 1 uniqueViolation) (length (writes ?s1) + 0) Traces
        (map (heap ?s1) (map data (take (if False then length (queue ?s1 Traces)
             else batchSize (exampleConfig 2 3)) (queue ?s1 Traces)))) = None"
    by (simp add: ex_run2 exampleConfig_def failFirst_def exampleStore_def)
  have cap: "int 0 < max 1 (envMaxAttempts (exampleConfig 2 3))" by simp
  note f = flush_retryable_then_success [OF ne _ ok cap]
  from f show "queue run3 Traces = [\<lparr>createdAt = 30, attempts = 1, data = 3\<rparr>]"
    by (simp add: r ex_run2 exampleConfig_def)
  from f show "writes run3 =
      [(Traces, [smallRecord, smallRecord]), (Traces, [smallRecord, smallRecord])]"
    by (simp add: r ex_run2 exampleConfig_def exampleStore_def)
  from f show "errorCount run3 = 0" by (simp add: r ex_run2)
qed

theorem enqueue_leaves_items_counterexample:
  "batchSize (exampleConfig 2 3) \<le> length (queue run2 Traces) + 1 \<and>
   run3 = addToQueue (exampleConfig 2 3) (failFirst 1 uniqueViolation) Traces 3 30 run2 \<and>
   writeRecords (failFirst 1 uniqueViolation) (length (writes run2)) Traces
     [smallRecord, smallRecord] = None \<and>
   writes run3 = writes run2 @ [(Traces, [smallRecord, smallRecord])] \<and>
   errorCount run3 = 0 \<and>
   queue run3 Traces = [\<lparr>createdAt = 30, attempts = 1, data = 3\<rparr>] \<and>
   length (queue run3 Traces) \<noteq> 0"
proof -
  have a: "batchSize (exampleConfig 2 3) \<le> length (queue run2 Traces) + 1"
    by (simp add: ex_run2 exampleConfig_def)
  have b: "writeRecords (failFirst 1 uniqueViolation) (length (writes run2)) Traces
     [smallRecord, smallRecord] = None"
    by (simp add: ex_run2 failFirst_def)
  have c: "writes run3 = writes run2 @ [(Traces, [smallRecord, smallRecord])]"
    by (simp add: ex_run2 ex_run3)
  have d: "length (queue run3 Traces) \<noteq> 0" by (simp add: ex_run3)
  from a run3_def b c ex_run3(3) ex_run3(1) d show ?thesis by (intro conjI)
qed


text \<open>
  C9 (amended). \<open>shutdown\<close> clears the timer handle and then runs \<open>flushAll\<close> with
  \<open>fullQueue = true\<close>; its result is the state after that sweep. When every upsert
  succeeds, every queue is empty afterwards, each table with queued items has had its
  whole queue passed to \<open>writeToClickhouse\<close> as one batch (whatever \<open>batchSize\<close> is),
  in the order of the tables, no record is changed and nothing is counted as dropped.
  The rows stored are the records of all items queued for traces, then scores, then
  observations, each in queue order; the items of the other five tables are taken from
  their queues and nothing is stored for them.
\<close>

theorem shutdown_drains:
  "intervalId (shutdown cfg P s) = None \<and>
   ((\<forall>n t r. P n t r = None) \<longrightarrow>
      (\<forall>t. queue (shutdown cfg P s) t = []) \<and>
      writes (shutdown cfg P s) =
        writes s @ map (\<lambda>t. (t, map (heap s) (map data (queue s t))))
                      (filter (\<lambda>t. queue s t \<noteq> []) allTables) \<and>
      (\<forall>t. queue s t \<noteq> [] \<longrightarrow>
           (t, map (heap s) (map data (queue s t))) \<in> set (writes (shutdown cfg P s))) \<and>
      upserted (shutdown cfg P s) =
        upserted s @ map (\<lambda>i. (Traces, heap s (data i))) (queue s Traces) @
                     map (\<lambda>i. (Scores, heap s (data i))) (queue s Scores) @
                     map (\<lambda>i. (Observations, heap s (data i))) (queue s Observations) \<and>
      heap (shutdown cfg P s) = heap s \<and>
      errorCount (shutdown cfg P s) = errorCount s)"
proof -
  let ?s0 = "s\<lparr>intervalId := None\<rparr>"
  have i: "intervalId (shutdown cfg P s) = None"
    by (simp add: shutdown_def flushAll_def flushAll_intervalId)
  have all: "\<And>t. t \<in> set allTables"
  proof -
    fix t show "t \<in> set allTables" by (cases t) (simp_all add: allTables_def)
  qed
  have dist: "distinct allTables" by (simp add: allTables_def)
  have rest: "(\<forall>n t r. P n t r = None) \<longrightarrow>
      (\<forall>t. queue (shutdown cfg P s) t = []) \<and>
      writes (shutdown cfg P s) =
        writes s @ map (\<lambda>t. (t, map (heap s) (map data (queue s t))))
                      (filter (\<lambda>t. queue s t \<noteq> []) allTables) \<and>
      (\<forall>t. queue s t \<noteq> [] \<longrightarrow>
           (t, map (heap s) (map data (queue s t))) \<in> set (writes (shutdown cfg P s))) \<and>
      upserted (shutdown cfg P s) =
        upserted s @ map (\<lambda>i. (Traces, heap s (data i))) (queue s Traces) @
                     map (\<lambda>i. (Scores, heap s (data i))) (queue s Scores) @
                     map (\<lambda>i. (Observations, heap s (data i))) (queue s Observations) \<and>
      heap (shutdown cfg P s) = heap s \<and>
      errorCount (shutdown cfg P s) = errorCount s"
  proof
    assume h: "\<forall>n t r. P n t r = None"
    note f = flushAll_healthy [OF h dist, of cfg ?s0]
    have q: "\<forall>t. queue (shutdown cfg P s) t = []"
      using f all by (simp add: shutdown_def flushAll_def)
    have w: "writes (shutdown cfg P s) =
        writes s @ map (\<lambda>t. (t, map (heap s) (map data (queue s t))))
                      (filter (\<lambda>t. queue s t \<noteq> []) allTables)"
      using f by (simp add: shutdown_def flushAll_def)
    have m: "\<forall>t. queue s t \<noteq> [] \<longrightarrow>
           (t, map (heap s) (map data (queue s t))) \<in> set (writes (shutdown cfg P s))"
      using all unfolding w by auto
    have e: "heap (shutdown cfg P s) = heap s \<and> errorCount (shutdown cfg P s) = errorCount s"
      using f by (simp add: shutdown_def flushAll_def)
    have u: "upserted (shutdown cfg P s) =
        upserted s @ map (\<lambda>i. (Traces, heap s (data i))) (queue s Traces) @
                     map (\<lambda>i. (Scores, heap s (data i))) (queue s Scores) @
                     map (\<lambda>i. (Observations, heap s (data i))) (queue s Observations)"
      using flushAll_healthy_upserted [OF h dist, of cfg ?s0]
      by (simp add: shutdown_def flushAll_def allTables_def)
    from q w m u e show "(\<forall>t. queue (shutdown cfg P s) t = []) \<and>
      writes (shutdown cfg P s) =
        writes s @ map (\<lambda>t. (t, map (heap s) (map data (queue s t))))
                      (filter (\<lambda>t. queue s t \<noteq> []) allTables) \<and>
      (\<forall>t. queue s t \<noteq> [] \<longrightarrow>
           (t, map (heap s) (map data (queue s t))) \<in> set (writes (shutdown cfg P s))) \<and>
      upserted (shutdown cfg P s) =
        upserted s @ map (\<lambda>i. (Traces, heap s (data i))) (queue s Traces) @
                     map (\<lambda>i. (Scores, heap s (data i))) (queue s Scores) @
                     map (\<lambda>i. (Observations, heap s (data i))) (queue s Observations) \<and>
      heap (shutdown cfg P s) = heap s \<and>
      errorCount (shutdown cfg P s) = errorCount s"
      by blast
  qed
  from i rest show ?thesis by blast
qed

theorem shutdown_drains_witness:
  "batchSize (exampleConfig 2 3) < length (queue (stateWith [mkItem 1 1, mkItem 1 2, mkItem 1 3]) Traces) \<and>
   intervalId (stateWith [mkItem 1 1, mkItem 1 2, mkItem 1 3]) = Some 0 \<and>
   intervalId (shutdown (exampleConfig 2 3) healthy (stateWith [mkItem 1 1, mkItem 1 2, mkItem 1 3])) = None \<and>
   queue (shutdown (exampleConfig 2 3) healthy (stateWith [mkItem 1 1, mkItem 1 2, mkItem 1 3])) Traces = [] \<and>
   writes (shutdown (exampleConfig 2 3) healthy (stateWith [mkItem 1 1, mkItem 1 2, mkItem 1 3])) =
     [(Traces, [smallRecord, smallRecord, smallRecord])] \<and>
   upserted (shutdown (exampleConfig 2 3) healthy (stateWith [mkItem 1 1, mkItem 1 2, mkItem 1 3])) =
     [(Traces, smallRecord), (Traces, smallRecord), (Traces, smallRecord)]"
proof -
  have h: "\<forall>n t r. healthy n t r = None" by (simp add: healthy_def)
  show ?thesis
    using shutdown_drains [of "exampleConfig 2 3" healthy
        "stateWith [mkItem 1 1, mkItem 1 2, mkItem 1 3]"] h
    by (simp add: stateWith_def newWriter_def exampleConfig_def mkItem_def exampleStore_def
          allTables_def)
qed

text \<open>
  C9 as stated fails for the tables that \<open>writeRecordToPostgres\<close> does not store. With
  three items queued for the events table, \<open>batchSize = 2\<close> and a backing store that
  never fails, \<open>shutdown\<close> empties the queue and counts no drop, and no row is stored:
  none of the three items is delivered.
\<close>

theorem shutdown_events_counterexample:
  "queue eventsState Events = [mkItem 1 1, mkItem 1 2, mkItem 1 3] \<and>
   batchSize (exampleConfig 2 3) = 2 \<and>
   queue (shutdown (exampleConfig 2 3) healthy eventsState) Events = [] \<and>
   upserted (shutdown (exampleConfig 2 3) healthy eventsState) = [] \<and>
   errorCount (shutdown (exampleConfig 2 3) healthy eventsState) = 0"
  by (simp add: shutdown_def flushAll_def allTables_def flush_def backOff_def
        backOff_execute.simps request_def writeToClickhouse_def eventsState_def
        exampleConfig_def mkItem_def newWriter_def healthy_def exampleStore_def Let_def)

text \<open>
  C10. For a thrown value that is \<open>null\<close>, \<open>undefined\<close> or not an object, the three
  error predicates are false, the \<open>retry\<close> callback does not ask for a retry and leaves
  the batch, the queue and the records as they are, and the attempt loop ends at that
  attempt: one write is made, nothing is split or truncated, and when this is the first
  attempt of a cycle the whole batch goes to the catch block of \<open>flush\<close>.
\<close>

theorem non_object_error_is_fatal:
  assumes "e = JsNull \<or> e = JsUndefined \<or> e = JsPrimitive v"
  shows "\<not> isRetryableError e \<and> \<not> isStringLengthError e \<and> \<not> isSizeError e \<and>
         fst (retry t e k c) \<noteq> Inr True \<and>
         queueItems (snd (retry t e k c)) = queueItems c \<and>
         recordsToWrite (snd (retry t e k c)) = recordsToWrite c \<and>
         hasBeenTruncated (snd (retry t e k c)) = hasBeenTruncated c \<and>
         queue (world (snd (retry t e k c))) = queue (world c) \<and>
         heap (world (snd (retry t e k c))) = heap (world c) \<and>
         (int k < N \<and>
          writeRecords P (length (writes (world c))) t
            (map (heap (world c)) (recordsToWrite c)) = Some e \<longrightarrow>
          fst (backOff_execute (request P t) (retry t) N k c) \<noteq> None \<and>
          queueItems (snd (backOff_execute (request P t) (retry t) N k c)) = queueItems c \<and>
          recordsToWrite (snd (backOff_execute (request P t) (retry t) N k c)) = recordsToWrite c \<and>
          hasBeenTruncated (snd (backOff_execute (request P t) (retry t) N k c)) = hasBeenTruncated c \<and>
          queue (world (snd (backOff_execute (request P t) (retry t) N k c))) = queue (world c) \<and>
          heap (world (snd (backOff_execute (request P t) (retry t) N k c))) = heap (world c) \<and>
          writes (world (snd (backOff_execute (request P t) (retry t) N k c))) =
            writes (world c) @ [(t, map (heap (world c)) (recordsToWrite c))]) \<and>
         (queue s t \<noteq> [] \<and>
          writeRecords P (length (writes s)) t
            (map (heap s) (map data
               (take (if full then length (queue s t) else batchSize cfg) (queue s t))))
            = Some e \<longrightarrow>
          writes (flush cfg P t full s) =
            writes s @ [(t, map (heap s) (map data
               (take (if full then length (queue s t) else batchSize cfg) (queue s t))))] \<and>
          heap (flush cfg P t full s) = heap s \<and>
          queue (flush cfg P t full s) =
            (queue s)(t := drop (if full then length (queue s t) else batchSize cfg) (queue s t) @
               map (\<lambda>i. i\<lparr>attempts := attempts i + 1\<rparr>)
                 (filter (\<lambda>i. attempts i < maxAttempts cfg)
                    (take (if full then length (queue s t) else batchSize cfg) (queue s t)))))"
proof -
  have cls: "\<not> isRetryableError e" "\<not> isStringLengthError e" "\<not> isSizeError e"
    using assms by (auto simp: isRetryableError_def isStringLengthError_def isSizeError_def)
  have r: "retry t e k c =
     (if e = JsNull \<or> e = JsUndefined then (Inl typeError, c)
      else (Inr False, c\<lparr>world := addLog ErrorNonRetryable (world c)\<rparr>))"
    using retry_fatal [OF cls(1,2), of c t k] cls(3) by simp
  have r': "fst (retry t e k c) \<noteq> Inr True \<and>
         queueItems (snd (retry t e k c)) = queueItems c \<and>
         recordsToWrite (snd (retry t e k c)) = recordsToWrite c \<and>
         hasBeenTruncated (snd (retry t e k c)) = hasBeenTruncated c \<and>
         queue (world (snd (retry t e k c))) = queue (world c) \<and>
         heap (world (snd (retry t e k c))) = heap (world c)"
    by (simp add: r)
  have l: "int k < N \<and>
          writeRecords P (length (writes (world c))) t
            (map (heap (world c)) (recordsToWrite c)) = Some e \<longrightarrow>
          fst (backOff_execute (request P t) (retry t) N k c) \<noteq> None \<and>
          queueItems (snd (backOff_execute (request P t) (retry t) N k c)) = queueItems c \<and>
          recordsToWrite (snd (backOff_execute (request P t) (retry t) N k c)) = recordsToWrite c \<and>
          hasBeenTruncated (snd (backOff_execute (request P t) (retry t) N k c)) = hasBeenTruncated c \<and>
          queue (world (snd (backOff_execute (request P t) (retry t) N k c))) = queue (world c) \<and>
          heap (world (snd (backOff_execute (request P t) (retry t) N k c))) = heap (world c) \<and>
          writes (world (snd (backOff_execute (request P t) (retry t) N k c))) =
            writes (world c) @ [(t, map (heap (world c)) (recordsToWrite c))]"
    using backOff_fatal_stops [OF cls(1,2), of c P t k N] cls(3) by blast
  show ?thesis
    using cls r' l flush_fatal [OF cls, of s t P full cfg] by blast
qed

theorem non_object_error_is_fatal_witness:
  "\<not> isRetryableError (JsPrimitive ''connection lost'') \<and>
   \<not> isStringLengthError (JsPrimitive ''connection lost'') \<and>
   \<not> isSizeError (JsPrimitive ''connection lost'') \<and>
   writes (flush (exampleConfig 2 3) (always (JsPrimitive ''connection lost'')) Traces False
             (stateWith [mkItem 1 1, mkItem 3 2])) = [(Traces, [smallRecord, smallRecord])] \<and>
   heap (flush (exampleConfig 2 3) (always (JsPrimitive ''connection lost'')) Traces False
             (stateWith [mkItem 1 1, mkItem 3 2])) = exampleStore \<and>
   queue (flush (exampleConfig 2 3) (always (JsPrimitive ''connection lost'')) Traces False
             (stateWith [mkItem 1 1, mkItem 3 2])) Traces = [mkItem 2 1]"
proof -
  have w: "writeRecords (always (JsPrimitive ''connection lost'')) 0 Traces [smallRecord, smallRecord] =
      Some (JsPrimitive ''connection lost'')"
    by (simp add: always_def)
  show ?thesis
    using non_object_error_is_fatal [where e = "JsPrimitive ''connection lost''"
        and v = "''connection lost''" and s = "stateWith [mkItem 1 1, mkItem 3 2]"
        and t = Traces and P = "always (JsPrimitive ''connection lost'')" and full = False
        and cfg = "exampleConfig 2 3"] w
    by (simp add: exampleConfig_def stateWith_def mkItem_def newWriter_def exampleStore_def)
qed


end
